theory Spec2Isabelle
  imports Main "HOL-Library.Word" "HOL-Library.Multiset"
begin

section \<open>Data model of the runtime (narwhalyzer.c)\<close>

text \<open>
  The runtime keeps a process-wide table of sections, a thread-local stack of
  contexts, and a few flags. The functions are those of narwhalyzer.c. The header
  narwhalyzer.h, which declares the two struct types and the two capacity macros, is
  not among the sources.
\<close>

type_synonym uint64_t = "64 word"

definition UINT64_MAX :: uint64_t where
  "UINT64_MAX = 0xFFFFFFFFFFFFFFFF"

text \<open>
  The compile-time capacities \<^verbatim>\<open>NARWHALYZER_MAX_SECTIONS\<close> and
  \<^verbatim>\<open>NARWHALYZER_MAX_NESTING_DEPTH\<close> of the missing header (README: 2048 and 128
  unless redefined before the header is included) are parameters of every function that
  uses them.
\<close>

record config =
  MAX_SECTIONS :: int
  MAX_NESTING_DEPTH :: int

text \<open>
  Modelled from the spec: the declaration of \<^verbatim>\<open>narwhalyzer_section_stats_t\<close> in the
  missing header. The fields are those of the spec's Section (name, source file, source
  line, entry count, cumulative, minimum and maximum time, parent index; the index is
  the position in the table) and \<^verbatim>\<open>depth\<close>, which narwhalyzer.c assigns. The counters
  are \<^verbatim>\<open>uint64_t\<close>, as the code's arithmetic on them and \<^verbatim>\<open>UINT64_MAX\<close> show. A
  \<^verbatim>\<open>const char *\<close> is a string or the null pointer (\<open>None\<close>); \<^verbatim>\<open>strcmp\<close> compares
  contents. The field \<^verbatim>\<open>file\<close> is written \<open>file'\<close>.
\<close>

record narwhalyzer_section_stats =
  name :: "string option"
  file' :: "string option"
  line :: int
  entry_count :: uint64_t
  cumulative_time_ns :: uint64_t
  min_time_ns :: uint64_t
  max_time_ns :: uint64_t
  parent_index :: int
  depth :: int

text \<open>
  Modelled from the spec: the declaration of \<^verbatim>\<open>narwhalyzer_context_t\<close> in the missing
  header, one cell of the thread-local context stack, with the three fields of the
  spec's Context, which are the three that narwhalyzer.c assigns.
\<close>

record narwhalyzer_context =
  section_index :: int
  start_time_ns :: uint64_t
  parent_context_index :: int

text \<open>The static variables of narwhalyzer.c that are shared by all threads.\<close>

record globals =
  g_sections :: "narwhalyzer_section_stats list"
  g_section_count :: int
  g_initialized :: int
  g_program_start_time_ns :: uint64_t
  g_program_end_time_ns :: uint64_t
  g_report_printed :: int

text \<open>The \<^verbatim>\<open>__thread\<close> variables: every thread has its own copy.\<close>

record thread_locals =
  g_context_stack :: "narwhalyzer_context list"
  g_context_stack_top :: int

text \<open>Static storage is zero-initialised; \<^verbatim>\<open>memset(g_sections, 0, ...)\<close> writes the same.\<close>

definition zero_section :: narwhalyzer_section_stats where
  "zero_section = \<lparr>name = None, file' = None, line = 0, entry_count = 0,
     cumulative_time_ns = 0, min_time_ns = 0, max_time_ns = 0, parent_index = 0, depth = 0\<rparr>"

definition zero_context :: narwhalyzer_context where
  "zero_context = \<lparr>section_index = 0, start_time_ns = 0, parent_context_index = 0\<rparr>"

definition initial_globals :: "config \<Rightarrow> globals" where
  "initial_globals cfg = \<lparr>g_sections = replicate (nat (MAX_SECTIONS cfg)) zero_section,
     g_section_count = 0, g_initialized = 0, g_program_start_time_ns = 0,
     g_program_end_time_ns = 0, g_report_printed = 0\<rparr>"

definition initial_thread_locals :: "config \<Rightarrow> thread_locals" where
  "initial_thread_locals cfg =
     \<lparr>g_context_stack = replicate (nat (MAX_NESTING_DEPTH cfg)) zero_context,
      g_context_stack_top = - 1\<rparr>"

section \<open>Public API\<close>

text \<open>
  The value returned by \<^verbatim>\<open>__narwhalyzer_get_timestamp_ns\<close> during a call is the argument
  \<open>now\<close> of the function that models the call. Lines written to \<^verbatim>\<open>stderr\<close> are returned
  next to the result.
\<close>

definition narwhalyzer_init :: "uint64_t \<Rightarrow> globals \<Rightarrow> globals" where
  "narwhalyzer_init now g =
     (if g_initialized g \<noteq> 0 then g
      else g\<lparr>g_initialized := 1,
             g_program_start_time_ns := now,
             g_sections := replicate (length (g_sections g)) zero_section\<rparr>)"

text \<open>The test of the registration loop on one table entry.\<close>

definition same_section :: "narwhalyzer_section_stats \<Rightarrow> string \<Rightarrow> string option \<Rightarrow> int \<Rightarrow> bool" where
  "same_section s nm fl ln =
     (line s = ln \<and> file' s \<noteq> None \<and> fl \<noteq> None \<and> file' s = fl \<and> name s = Some nm)"

definition warn_max_sections :: string where
  "warn_max_sections = ''narwhalyzer: warning: maximum section count exceeded''"

definition warn_max_nesting :: string where
  "warn_max_nesting = ''narwhalyzer: warning: maximum nesting depth exceeded''"

definition narwhalyzer_register_section ::
  "config \<Rightarrow> uint64_t \<Rightarrow> string \<Rightarrow> string option \<Rightarrow> int \<Rightarrow> globals \<Rightarrow> int \<times> string list \<times> globals" where
  "narwhalyzer_register_section cfg now nm fl ln g =
     (let g1 = (if g_initialized g = 0 then narwhalyzer_init now g else g);
          count = g_section_count g1
      in case find (\<lambda>i. same_section (g_sections g1 ! i) nm fl ln) [0 ..< nat count] of
           Some i \<Rightarrow> (int i, [], g1)
         | None \<Rightarrow>
            (let idx = g_section_count g1;
                 g2 = g1\<lparr>g_section_count := g_section_count g1 + 1\<rparr>
             in if idx \<ge> MAX_SECTIONS cfg
                then (- 1, [warn_max_sections], g2\<lparr>g_section_count := g_section_count g2 - 1\<rparr>)
                else (idx, [],
                      g2\<lparr>g_sections := (g_sections g2)[nat idx :=
                           \<lparr>name = Some nm, file' = fl, line = ln, entry_count = 0,
                            cumulative_time_ns = 0, min_time_ns = UINT64_MAX, max_time_ns = 0,
                            parent_index = - 1, depth = 0\<rparr>]\<rparr>)))"

definition narwhalyzer_section_enter ::
  "config \<Rightarrow> uint64_t \<Rightarrow> int \<Rightarrow> globals \<times> thread_locals
     \<Rightarrow> int \<times> string list \<times> globals \<times> thread_locals" where
  "narwhalyzer_section_enter cfg now section_idx gl =
     (let g = fst gl; l = snd gl in
      if section_idx < 0 \<or> section_idx \<ge> g_section_count g then (- 1, [], g, l)
      else
        let l1 = l\<lparr>g_context_stack_top := g_context_stack_top l + 1\<rparr>;
            ctx_idx = g_context_stack_top l1
        in if ctx_idx \<ge> MAX_NESTING_DEPTH cfg
           then (- 1, [warn_max_nesting], g, l1\<lparr>g_context_stack_top := g_context_stack_top l1 - 1\<rparr>)
           else
             let ctx = \<lparr>section_index = section_idx, start_time_ns = now,
                        parent_context_index = (if ctx_idx > 0 then ctx_idx - 1 else - 1)\<rparr>;
                 l2 = l1\<lparr>g_context_stack := (g_context_stack l1)[nat ctx_idx := ctx]\<rparr>;
                 s = g_sections g ! nat section_idx;
                 s1 = s\<lparr>entry_count := entry_count s + 1\<rparr>;
                 s2 = (if parent_index s1 = - 1 \<and> ctx_idx > 0
                       then s1\<lparr>parent_index := section_index (g_context_stack l2 ! nat (ctx_idx - 1))\<rparr>
                       else s1);
                 s3 = s2\<lparr>depth := ctx_idx\<rparr>
             in (ctx_idx, [], g\<lparr>g_sections := (g_sections g)[nat section_idx := s3]\<rparr>, l2))"

text \<open>
  The two compare-and-swap loops of \<^verbatim>\<open>__narwhalyzer_section_exit\<close>. A call is one step of
  the model, so no other thread writes the field between the read of \<open>old\<close> and the
  exchange: the exchange succeeds at the first attempt and the loop ends.
\<close>

definition update_min :: "uint64_t \<Rightarrow> uint64_t \<Rightarrow> uint64_t" where
  "update_min elapsed_ns cur = (let old_min = cur in if elapsed_ns < old_min then elapsed_ns else cur)"

definition update_max :: "uint64_t \<Rightarrow> uint64_t \<Rightarrow> uint64_t" where
  "update_max elapsed_ns cur = (let old_max = cur in if elapsed_ns > old_max then elapsed_ns else cur)"

definition narwhalyzer_section_exit ::
  "uint64_t \<Rightarrow> int \<Rightarrow> globals \<times> thread_locals \<Rightarrow> globals \<times> thread_locals" where
  "narwhalyzer_section_exit now context_index gl =
     (let g = fst gl; l = snd gl in
      if context_index < 0 \<or> context_index > g_context_stack_top l then (g, l)
      else
        let end_time_ns = now;
            ctx = g_context_stack l ! nat context_index;
            elapsed_ns = end_time_ns - start_time_ns ctx;
            s = g_sections g ! nat (section_index ctx);
            s1 = s\<lparr>cumulative_time_ns := cumulative_time_ns s + elapsed_ns\<rparr>;
            s2 = s1\<lparr>min_time_ns := update_min elapsed_ns (min_time_ns s1)\<rparr>;
            s3 = s2\<lparr>max_time_ns := update_max elapsed_ns (max_time_ns s2)\<rparr>;
            g' = g\<lparr>g_sections := (g_sections g)[nat (section_index ctx) := s3]\<rparr>
        in (g', if context_index = g_context_stack_top l
                then l\<lparr>g_context_stack_top := g_context_stack_top l - 1\<rparr> else l))"

section \<open>The report\<close>

text \<open>
  The report is modelled line by line. A line keeps the section it is about and the
  integers it prints; column widths, the truncation of long names, the \<^verbatim>\<open>%.3f\<close>
  formatting of times and the floating-point percentage are not modelled.
\<close>

datatype report_line =
    NoSectionsExecuted
  | ReportBanner
  | TotalProgramTime uint64_t
  | SectionsInstrumented int
  | FlatSummaryHeading
  | TableHeader
  | TableRow int uint64_t uint64_t uint64_t uint64_t uint64_t
  | TableEnd
  | HierarchyHeading
  | HierarchyRoot int
  | HierarchyChild "bool list" bool int
  | HierarchyBlank
  | DetailsHeading
  | DetailsEntry int "string option" int uint64_t
  | EndOfReport

text \<open>
  \<^verbatim>\<open>TableRow idx entries cumulative mean min max\<close>; \<^verbatim>\<open>HierarchyChild prefix is_last idx\<close>,
  where the prefix string is kept as the \<^verbatim>\<open>is_last\<close> flags of the ancestors (each adds
  four columns); \<^verbatim>\<open>DetailsEntry idx file line entries\<close>.
\<close>

fun line_section :: "report_line \<Rightarrow> int option" where
  "line_section (TableRow idx _ _ _ _ _) = Some idx"
| "line_section (HierarchyRoot idx) = Some idx"
| "line_section (HierarchyChild _ _ idx) = Some idx"
| "line_section (DetailsEntry idx _ _ _) = Some idx"
| "line_section _ = None"



definition compare_sections_by_time :: "globals \<Rightarrow> int \<Rightarrow> int \<Rightarrow> int" where
  "compare_sections_by_time g ia ib =
     (let time_a = cumulative_time_ns (g_sections g ! nat ia);
          time_b = cumulative_time_ns (g_sections g ! nat ib)
      in if time_b > time_a then 1 else if time_b < time_a then - 1 else 0)"

text \<open>
  \<^verbatim>\<open>qsort\<close> belongs to the C library, not to the repository, so it is a parameter
  \<open>qsort\<close> of the functions that call it. The C standard promises that the array ends up
  sorted by the comparison function and holds the same elements (\<open>qsort_contract\<close>). The
  order of elements that compare equal is left to the library; a library that sorts by
  merging keeps them in the order of the input (\<open>qsort_stable\<close>). Each theorem names the
  properties of \<^verbatim>\<open>qsort\<close> that it relies on.
\<close>

definition qsort_contract ::
  "((int \<Rightarrow> int \<Rightarrow> int) \<Rightarrow> int list \<Rightarrow> int list) \<Rightarrow> (int \<Rightarrow> int \<Rightarrow> int) \<Rightarrow> int list \<Rightarrow> bool" where
  "qsort_contract qsort cmp xs =
     (mset (qsort cmp xs) = mset xs \<and> sorted_wrt (\<lambda>a b. cmp a b \<le> 0) (qsort cmp xs))"

definition qsort_stable ::
  "((int \<Rightarrow> int \<Rightarrow> int) \<Rightarrow> int list \<Rightarrow> int list) \<Rightarrow> (int \<Rightarrow> int \<Rightarrow> int) \<Rightarrow> int list \<Rightarrow> bool" where
  "qsort_stable qsort cmp xs =
     list_all (\<lambda>a. filter (\<lambda>x. cmp a x = 0) (qsort cmp xs) = filter (\<lambda>x. cmp a x = 0) xs) xs"

definition flat_row :: "globals \<Rightarrow> int \<Rightarrow> report_line list" where
  "flat_row g idx =
     (let s = g_sections g ! nat idx in
      if entry_count s = 0 then []
      else [TableRow idx (entry_count s) (cumulative_time_ns s)
              (cumulative_time_ns s div entry_count s) (min_time_ns s) (max_time_ns s)])"

definition print_flat_summary ::
  "((int \<Rightarrow> int \<Rightarrow> int) \<Rightarrow> int list \<Rightarrow> int list) \<Rightarrow> globals \<Rightarrow> int \<Rightarrow> uint64_t \<Rightarrow> report_line list" where
  "print_flat_summary qsort g section_count total_time_ns =
     (if section_count = 0 then [NoSectionsExecuted]
      else
        let sorted_indices = qsort (compare_sections_by_time g) (map int [0 ..< nat section_count])
        in [ReportBanner, TotalProgramTime total_time_ns, SectionsInstrumented section_count,
            FlatSummaryHeading, TableHeader]
           @ concat (map (flat_row g) sorted_indices)
           @ [TableEnd])"

text \<open>
  The loop of \<^verbatim>\<open>print_hierarchy_view\<close> that builds the child lists (\<^verbatim>\<open>add_child\<close> appends)
  and the list of roots. Iteration \<^verbatim>\<open>i\<close> first resets \<^verbatim>\<open>nodes[i]\<close> to a node without
  children (narwhalyzer.c:262-265), which drops the children that an earlier iteration
  has added to it, and only then files \<^verbatim>\<open>i\<close> under the roots or under its parent.
\<close>

definition build_step ::
  "globals \<Rightarrow> int \<Rightarrow> nat \<Rightarrow> int list list \<times> int list \<Rightarrow> int list list \<times> int list" where
  "build_step g section_count i nr =
     (let nodes = (fst nr)[i := []]; root_sections = snd nr;
          parent = parent_index (g_sections g ! i)
      in if parent < 0 then (nodes, root_sections @ [int i])
         else if parent < section_count
              then (nodes[nat parent := nodes ! nat parent @ [int i]], root_sections)
              else (nodes, root_sections))"

definition build_hierarchy :: "globals \<Rightarrow> int \<Rightarrow> int list list \<times> int list" where
  "build_hierarchy g section_count =
     fold (build_step g section_count) [0 ..< nat section_count]
       (replicate (nat section_count) [], [])"

text \<open>
  \<^verbatim>\<open>print_hierarchy_recursive\<close> recurses along the child lists, which the C code does
  not bound: the model counts the depth down and returns \<open>None\<close> when it is used up.
\<close>

fun print_hierarchy_recursive ::
  "nat \<Rightarrow> int list list \<Rightarrow> int \<Rightarrow> bool list \<Rightarrow> bool \<Rightarrow> report_line list option" where
  "print_hierarchy_recursive 0 nodes idx prefix is_last = None"
| "print_hierarchy_recursive (Suc fuel) nodes idx prefix is_last =
     (let new_prefix = prefix @ [is_last];
          children = nodes ! nat idx;
          child_count = length children
      in map_option (\<lambda>sub. HierarchyChild prefix is_last idx # concat sub)
           (those (map (\<lambda>i. print_hierarchy_recursive fuel nodes (children ! i) new_prefix
                               (int i = int child_count - 1))
                     [0 ..< child_count])))"

definition print_root :: "nat \<Rightarrow> globals \<Rightarrow> int list list \<Rightarrow> int \<Rightarrow> report_line list option" where
  "print_root fuel g nodes idx =
     (if entry_count (g_sections g ! nat idx) = 0 then Some []
      else
        let children = nodes ! nat idx;
            child_count = length children
        in map_option (\<lambda>sub. HierarchyRoot idx # concat sub @ [HierarchyBlank])
             (those (map (\<lambda>j. print_hierarchy_recursive fuel nodes (children ! j) []
                                 (int j = int child_count - 1))
                       [0 ..< child_count])))"

definition print_hierarchy_view :: "nat \<Rightarrow> globals \<Rightarrow> int \<Rightarrow> report_line list option" where
  "print_hierarchy_view fuel g section_count =
     (if section_count = 0 then Some []
      else
        let nr = build_hierarchy g section_count;
            nodes = fst nr; root_sections = snd nr
        in map_option (\<lambda>trees. HierarchyHeading # concat trees)
             (those (map (print_root fuel g nodes) root_sections)))"

definition details_entry :: "globals \<Rightarrow> nat \<Rightarrow> report_line list" where
  "details_entry g i =
     (let s = g_sections g ! i in
      if entry_count s = 0 then []
      else [DetailsEntry (int i) (file' s) (line s) (entry_count s)])"

definition print_section_details :: "globals \<Rightarrow> int \<Rightarrow> report_line list" where
  "print_section_details g section_count =
     DetailsHeading # concat (map (details_entry g) [0 ..< nat section_count])"

text \<open>
  \<^verbatim>\<open>__narwhalyzer_fini\<close>: the lines written to stdout (\<open>None\<close> if the recursion depth
  \<open>fuel\<close> does not suffice) and the globals afterwards.
\<close>

definition narwhalyzer_fini ::
  "nat \<Rightarrow> ((int \<Rightarrow> int \<Rightarrow> int) \<Rightarrow> int list \<Rightarrow> int list) \<Rightarrow> uint64_t \<Rightarrow> globals
     \<Rightarrow> report_line list option \<times> globals" where
  "narwhalyzer_fini fuel qsort now g =
     (if g_report_printed g \<noteq> 0 then (Some [], g)
      else
        let g1 = g\<lparr>g_report_printed := 1\<rparr>;
            g2 = g1\<lparr>g_program_end_time_ns := now\<rparr>;
            total_time_ns = g_program_end_time_ns g2 - g_program_start_time_ns g2;
            section_count = g_section_count g2
        in if section_count = 0 then (Some [], g2)
           else (map_option
                   (\<lambda>hierarchy. print_flat_summary qsort g2 section_count total_time_ns
                       @ hierarchy @ print_section_details g2 section_count @ [EndOfReport])
                   (print_hierarchy_view fuel g2 section_count),
                 g2))"

text \<open>
  One behaviour that \<^verbatim>\<open>qsort\<close> may have: a quicksort around the first element that puts
  the elements comparing equal to the pivot in front of it.
\<close>

fun qsort_quick :: "(int \<Rightarrow> int \<Rightarrow> int) \<Rightarrow> int list \<Rightarrow> int list" where
  "qsort_quick cmp [] = []"
| "qsort_quick cmp (p # xs) =
     qsort_quick cmp (filter (\<lambda>x. cmp x p \<le> 0) xs) @ p # qsort_quick cmp (filter (\<lambda>x. \<not> cmp x p \<le> 0) xs)"

text \<open>
  Another one: an insertion sort, which keeps the elements that compare equal in the
  order of the input.
\<close>

fun insort_cmp :: "(int \<Rightarrow> int \<Rightarrow> int) \<Rightarrow> int \<Rightarrow> int list \<Rightarrow> int list" where
  "insort_cmp cmp x [] = [x]"
| "insort_cmp cmp x (y # ys) = (if cmp x y \<le> 0 then x # y # ys else y # insort_cmp cmp x ys)"

definition qsort_insertion :: "(int \<Rightarrow> int \<Rightarrow> int) \<Rightarrow> int list \<Rightarrow> int list" where
  "qsort_insertion cmp xs = foldr (insort_cmp cmp) xs []"

section \<open>Sequences of calls\<close>

text \<open>
  A process is the shared globals and one copy of the thread-local variables per thread.
  A call is one step; calls of different threads interleave at call granularity.
\<close>

record world =
  glob :: globals
  tls :: "nat \<Rightarrow> thread_locals"

datatype api_call =
    Init uint64_t
  | Register string "string option" int uint64_t
  | Enter nat int uint64_t
  | Exit nat int uint64_t

definition initial_world :: "config \<Rightarrow> world" where
  "initial_world cfg = \<lparr>glob = initial_globals cfg, tls = (\<lambda>t. initial_thread_locals cfg)\<rparr>"

text \<open>One call: the value it returns (\<open>None\<close> for a \<^verbatim>\<open>void\<close> function) and the new state.\<close>

fun api_step :: "config \<Rightarrow> world \<Rightarrow> api_call \<Rightarrow> int option \<times> world" where
  "api_step cfg w (Init now) = (None, w\<lparr>glob := narwhalyzer_init now (glob w)\<rparr>)"
| "api_step cfg w (Register nm fl ln now) =
     (case narwhalyzer_register_section cfg now nm fl ln (glob w) of
        (r, err, g') \<Rightarrow> (Some r, w\<lparr>glob := g'\<rparr>))"
| "api_step cfg w (Enter t idx now) =
     (case narwhalyzer_section_enter cfg now idx (glob w, tls w t) of
        (r, err, g', l') \<Rightarrow> (Some r, w\<lparr>glob := g', tls := (tls w)(t := l')\<rparr>))"
| "api_step cfg w (Exit t ctx now) =
     (case narwhalyzer_section_exit now ctx (glob w, tls w t) of
        (g', l') \<Rightarrow> (None, w\<lparr>glob := g', tls := (tls w)(t := l')\<rparr>))"

definition api_run :: "config \<Rightarrow> world \<Rightarrow> api_call list \<Rightarrow> world" where
  "api_run cfg w cs = fold (\<lambda>c w'. snd (api_step cfg w' c)) cs w"

section \<open>Balanced sequences of enter and exit calls\<close>

text \<open>
  A call site keeps the context id that \<^verbatim>\<open>section_enter\<close> returned and passes it to
  \<^verbatim>\<open>section_exit\<close>. In a sequence that is balanced per thread an exit of a thread takes
  the id of that thread's latest enter that has not been exited yet. \<open>BEnter t idx now\<close>
  is an enter of section \<open>idx\<close> by thread \<open>t\<close> that reads the clock as \<open>now\<close>;
  \<open>BExit t now\<close> is the matching exit. The ids held by the call sites are the second
  component of the state, latest first, each with its thread.
\<close>

datatype bcall = BEnter nat int uint64_t | BExit nat uint64_t

fun take_first :: "nat \<Rightarrow> (nat \<times> 'a) list \<Rightarrow> ('a \<times> (nat \<times> 'a) list) option" where
  "take_first t [] = None"
| "take_first t ((u, x) # xs) =
     (if u = t then Some (x, xs)
      else map_option (\<lambda>yr. (fst yr, (u, x) # snd yr)) (take_first t xs))"

fun balanced_step :: "config \<Rightarrow> world \<times> (nat \<times> int) list \<Rightarrow> bcall \<Rightarrow> (world \<times> (nat \<times> int) list) option" where
  "balanced_step cfg (w, held) (BEnter t idx now) =
     (case api_step cfg w (Enter t idx now) of
        (Some r, w') \<Rightarrow> Some (w', (t, r) # held)
      | (None, w') \<Rightarrow> None)"
| "balanced_step cfg (w, held) (BExit t now) =
     (case take_first t held of
        None \<Rightarrow> None
      | Some (c, held') \<Rightarrow> Some (snd (api_step cfg w (Exit t c now)), held'))"

fun balanced_run :: "config \<Rightarrow> world \<times> (nat \<times> int) list \<Rightarrow> bcall list \<Rightarrow> (world \<times> (nat \<times> int) list) option" where
  "balanced_run cfg st [] = Some st"
| "balanced_run cfg st (ev # evs) =
     (case balanced_step cfg st ev of None \<Rightarrow> None | Some st' \<Rightarrow> balanced_run cfg st' evs)"

text \<open>
  The specification side: the durations of the completed activations of section \<open>s\<close>, in
  the order in which they complete, read off the sequence of calls alone. An activation
  is an enter with its exit; it is measured unless the enter fails (index out of range,
  or the thread already \<^verbatim>\<open>MAX_NESTING_DEPTH\<close> measured activations deep); its duration is
  the clock at the exit minus the clock at the enter, in 64-bit arithmetic. \<open>sc\<close> is the
  number of registered sections and \<open>pend\<close> the activations in flight, latest first.
\<close>

fun spec_measured_durations ::
  "config \<Rightarrow> int \<Rightarrow> int \<Rightarrow> (nat \<times> (int \<times> uint64_t \<times> bool)) list \<Rightarrow> bcall list \<Rightarrow> uint64_t list" where
  "spec_measured_durations cfg sc s pend [] = []"
| "spec_measured_durations cfg sc s pend (BEnter t idx now # evs) =
     (let nesting = int (length (filter (\<lambda>p. fst p = t \<and> snd (snd (snd p))) pend));
          measured = (0 \<le> idx \<and> idx < sc \<and> nesting < MAX_NESTING_DEPTH cfg)
      in spec_measured_durations cfg sc s ((t, (idx, now, measured)) # pend) evs)"
| "spec_measured_durations cfg sc s pend (BExit t now # evs) =
     (case take_first t pend of
        None \<Rightarrow> []
      | Some ((idx, t0, measured), pend') \<Rightarrow>
          (if measured \<and> idx = s then [now - t0] else [])
          @ spec_measured_durations cfg sc s pend' evs)"

text \<open>
  The durations of all completed activations of section \<open>s\<close>, measured or not: every
  enter of \<open>s\<close> with its exit, whatever the enter returned.
\<close>

fun spec_activation_durations ::
  "int \<Rightarrow> (nat \<times> (int \<times> uint64_t)) list \<Rightarrow> bcall list \<Rightarrow> uint64_t list" where
  "spec_activation_durations s pend [] = []"
| "spec_activation_durations s pend (BEnter t idx now # evs) =
     spec_activation_durations s ((t, (idx, now)) # pend) evs"
| "spec_activation_durations s pend (BExit t now # evs) =
     (case take_first t pend of
        None \<Rightarrow> []
      | Some ((idx, t0), pend') \<Rightarrow>
          (if idx = s then [now - t0] else []) @ spec_activation_durations s pend' evs)"

text \<open>
  How the ids held by the call sites, the activations in flight and the context stack of
  thread \<open>t\<close> belong together: a measured activation of \<open>t\<close> holds the id of the cell that
  records its section and start time, the latest one the top; an unmeasured one holds -1.
\<close>

fun thread_rel ::
  "nat \<Rightarrow> narwhalyzer_context list \<Rightarrow> int \<Rightarrow> (nat \<times> int) list
     \<Rightarrow> (nat \<times> (int \<times> uint64_t \<times> bool)) list \<Rightarrow> bool" where
  "thread_rel t stack tp [] [] = (tp = - 1)"
| "thread_rel t stack tp ((u, c) # hs) ((u', (idx, t0, m)) # ps) =
     (u = u' \<and>
      (if u = t then
         (if m then c = tp \<and> 0 \<le> c \<and> section_index (stack ! nat c) = idx
                    \<and> start_time_ns (stack ! nat c) = t0 \<and> thread_rel t stack (tp - 1) hs ps
          else c = - 1 \<and> thread_rel t stack tp hs ps)
       else thread_rel t stack tp hs ps))"
| "thread_rel t stack tp [] (p # ps) = False"
| "thread_rel t stack tp (h # hs) [] = False"

text \<open>The measured activations of section \<open>s\<close> that are in flight.\<close>

definition in_flight :: "int \<Rightarrow> (nat \<times> (int \<times> uint64_t \<times> bool)) list \<Rightarrow> nat" where
  "in_flight s pend = length (filter (\<lambda>p. snd (snd (snd p)) \<and> fst (snd p) = s) pend)"

text \<open>The invariant of a balanced run; \<open>sc\<close> is the number of registered sections.\<close>

definition balanced_inv ::
  "config \<Rightarrow> int \<Rightarrow> world \<Rightarrow> (nat \<times> int) list \<Rightarrow> (nat \<times> (int \<times> uint64_t \<times> bool)) list \<Rightarrow> bool" where
  "balanced_inv cfg sc w held pend =
     (0 < MAX_SECTIONS cfg \<and> length (g_sections (glob w)) = nat (MAX_SECTIONS cfg) \<and>
      0 \<le> g_section_count (glob w) \<and> g_section_count (glob w) \<le> MAX_SECTIONS cfg \<and>
      g_section_count (glob w) = sc \<and>
      list_all (\<lambda>p. snd (snd (snd p)) \<longrightarrow> 0 \<le> fst (snd p) \<and> fst (snd p) < sc) pend \<and>
      (\<forall>t. length (g_context_stack (tls w t)) = nat (MAX_NESTING_DEPTH cfg) \<and>
           thread_rel t (g_context_stack (tls w t)) (g_context_stack_top (tls w t)) held pend))"

section \<open>Well-formed states\<close>

definition wf_thread :: "config \<Rightarrow> globals \<Rightarrow> thread_locals \<Rightarrow> bool" where
  "wf_thread cfg g l =
     (length (g_context_stack l) = nat (MAX_NESTING_DEPTH cfg) \<and>
      - 1 \<le> g_context_stack_top l \<and> g_context_stack_top l < MAX_NESTING_DEPTH cfg \<and>
      list_all (\<lambda>c. 0 \<le> section_index c \<and> section_index c < g_section_count g)
        (take (nat (g_context_stack_top l + 1)) (g_context_stack l)))"

definition wf_globals :: "config \<Rightarrow> globals \<Rightarrow> bool" where
  "wf_globals cfg g =
     (0 < MAX_SECTIONS cfg \<and> length (g_sections g) = nat (MAX_SECTIONS cfg) \<and>
      0 \<le> g_section_count g \<and> g_section_count g \<le> MAX_SECTIONS cfg \<and>
      (0 < g_section_count g \<longrightarrow> g_initialized g \<noteq> 0))"

definition wf_world :: "config \<Rightarrow> world \<Rightarrow> bool" where
  "wf_world cfg w = (wf_globals cfg (glob w) \<and> (\<forall>t. wf_thread cfg (glob w) (tls w t)))"

text \<open>The section in slot \<open>i\<close> of the table.\<close>

definition section_at :: "world \<Rightarrow> int \<Rightarrow> narwhalyzer_section_stats" where
  "section_at w i = g_sections (glob w) ! nat i"

text \<open>
  The registration loop as a function of the state, and what a finished registration of
  a triple leaves behind: either the triple's first slot, or a full table without it.
\<close>

definition lookup :: "globals \<Rightarrow> string \<Rightarrow> string option \<Rightarrow> int \<Rightarrow> nat option" where
  "lookup g nm fl ln = find (\<lambda>i. same_section (g_sections g ! i) nm fl ln) [0 ..< nat (g_section_count g)]"

definition settled :: "config \<Rightarrow> globals \<Rightarrow> string \<Rightarrow> string option \<Rightarrow> int \<Rightarrow> int \<Rightarrow> bool" where
  "settled cfg g nm fl ln r =
     ((0 \<le> r \<and> lookup g nm fl ln = Some (nat r))
    \<or> (r = - 1 \<and> lookup g nm fl ln = None \<and> g_section_count g = MAX_SECTIONS cfg))"

text \<open>
  What \<open>n\<close> calls can have done to the counters: no entry count is above \<open>n\<close>, and a
  section that has got a parent has been entered.
\<close>

definition entered_inv :: "nat \<Rightarrow> globals \<Rightarrow> bool" where
  "entered_inv n g =
     (\<forall>i < nat (g_section_count g).
        unat (entry_count (g_sections g ! i)) \<le> n
      \<and> (parent_index (g_sections g ! i) \<noteq> - 1 \<longrightarrow> entry_count (g_sections g ! i) \<noteq> 0))"

section \<open>Concrete states used to instantiate the theorems\<close>

definition cfg2 :: config where
  "cfg2 = \<lparr>MAX_SECTIONS = 2, MAX_NESTING_DEPTH = 2\<rparr>"

definition fresh_section :: "string \<Rightarrow> string option \<Rightarrow> int \<Rightarrow> narwhalyzer_section_stats" where
  "fresh_section nm fl ln = \<lparr>name = Some nm, file' = fl, line = ln, entry_count = 0,
     cumulative_time_ns = 0, min_time_ns = UINT64_MAX, max_time_ns = 0,
     parent_index = - 1, depth = 0\<rparr>"

text \<open>The globals once \<^verbatim>\<open>__narwhalyzer_init\<close> has run at time 100, no section registered.\<close>

definition g_init :: globals where
  "g_init = \<lparr>g_sections = [zero_section, zero_section],
     g_section_count = 0, g_initialized = 1, g_program_start_time_ns = 100,
     g_program_end_time_ns = 0, g_report_printed = 0\<rparr>"

text \<open>The globals after \<^verbatim>\<open>register("compute", "f.c", 10)\<close> at time 100 in a fresh process.\<close>

definition g_one :: globals where
  "g_one = \<lparr>g_sections = [fresh_section ''compute'' (Some ''f.c'') 10, zero_section],
     g_section_count = 1, g_initialized = 1, g_program_start_time_ns = 100,
     g_program_end_time_ns = 0, g_report_printed = 0\<rparr>"

text \<open>... and after a second registration, \<^verbatim>\<open>register("io", "f.c", 20)\<close>: the table is full.\<close>

definition g_two :: globals where
  "g_two = \<lparr>g_sections = [fresh_section ''compute'' (Some ''f.c'') 10,
                       fresh_section ''io'' (Some ''f.c'') 20],
     g_section_count = 2, g_initialized = 1, g_program_start_time_ns = 100,
     g_program_end_time_ns = 0, g_report_printed = 0\<rparr>"

text \<open>A thread inside section 0 since time 200, and one nested two deep (stack full).\<close>

definition l_in0 :: thread_locals where
  "l_in0 = \<lparr>g_context_stack =
       [\<lparr>section_index = 0, start_time_ns = 200, parent_context_index = - 1\<rparr>, zero_context],
     g_context_stack_top = 0\<rparr>"

definition l_full :: thread_locals where
  "l_full = \<lparr>g_context_stack =
       [\<lparr>section_index = 0, start_time_ns = 200, parent_context_index = - 1\<rparr>,
        \<lparr>section_index = 1, start_time_ns = 300, parent_context_index = 0\<rparr>],
     g_context_stack_top = 1\<rparr>"

text \<open>Thread 0 inside section 0, every other thread idle; section 1 never entered.\<close>

definition w_in0 :: world where
  "w_in0 = \<lparr>glob = g_two, tls = (\<lambda>t. initial_thread_locals cfg2)(0 := l_in0)\<rparr>"

text \<open>Thread 0 inside section 1 inside section 0: section 1 has got its parent.\<close>

definition g_nested :: globals where
  "g_nested = \<lparr>g_sections =
       [(fresh_section ''compute'' (Some ''f.c'') 10)\<lparr>entry_count := 1\<rparr>,
        (fresh_section ''io'' (Some ''f.c'') 20)\<lparr>entry_count := 1, parent_index := 0, depth := 1\<rparr>],
     g_section_count = 2, g_initialized = 1, g_program_start_time_ns = 100,
     g_program_end_time_ns = 0, g_report_printed = 0\<rparr>"

definition w_nested :: world where
  "w_nested = \<lparr>glob = g_nested, tls = (\<lambda>t. initial_thread_locals cfg2)(0 := l_full)\<rparr>"





text \<open>
  Three sections: \<^verbatim>\<open>compute\<close> entered at top level, \<^verbatim>\<open>io\<close> entered inside it, and
  \<^verbatim>\<open>idle\<close> registered but never entered.
\<close>

definition cfg3 :: config where
  "cfg3 = \<lparr>MAX_SECTIONS = 3, MAX_NESTING_DEPTH = 2\<rparr>"

definition calls_nested :: "api_call list" where
  "calls_nested = [Register ''compute'' (Some ''f.c'') 10 100, Register ''io'' (Some ''f.c'') 20 150,
     Register ''idle'' (Some ''f.c'') 30 160,
     Enter 0 0 1000, Enter 0 1 1100, Exit 0 1 1400, Exit 0 0 2000]"

text \<open>
  The inner section registered before the outer one: \<^verbatim>\<open>inner\<close> is section 0 and is entered
  inside \<^verbatim>\<open>outer\<close>, section 1.
\<close>

definition calls_child_first :: "api_call list" where
  "calls_child_first = [Register ''inner'' (Some ''f.c'') 10 100, Register ''outer'' (Some ''f.c'') 20 150,
     Enter 0 1 1000, Enter 0 0 1100, Exit 0 1 1400, Exit 0 0 2000]"

text \<open>
  Two registered sections and all threads idle; then threads 0 and 1 run activations of
  section 0 that overlap in time, thread 0 nests section 1 inside, and its second nested
  enter of section 1 exceeds the nesting depth of 2 and is not measured.
\<close>

definition w_idle :: world where
  "w_idle = \<lparr>glob = g_two, tls = (\<lambda>t. initial_thread_locals cfg2)\<rparr>"

definition calls_balanced :: "bcall list" where
  "calls_balanced = [BEnter 0 0 1000, BEnter 1 0 1200, BEnter 0 1 1300, BEnter 0 1 1350,
     BExit 0 1360, BExit 0 1600, BExit 1 2000, BExit 0 2500, BEnter 0 0 3000, BExit 0 3100]"

text \<open>
  Thread 0 enters section 0 three times, each inside the one before, and leaves in stack
  order. The nesting depth is 2, so the third enter returns -1 and its exit does nothing.
\<close>

definition calls_deep :: "bcall list" where
  "calls_deep = [BEnter 0 0 1000, BEnter 0 0 1100, BEnter 0 0 1200,
     BExit 0 1300, BExit 0 1400, BExit 0 1500]"

section \<open>Entering a section\<close>

text \<open>
  C6. \<^verbatim>\<open>__narwhalyzer_section_enter\<close> returns -1 for a negative or out-of-range index;
  with the stack at capacity it returns -1 and the thread's stack and top are as before;
  no section changes either. Otherwise it writes one context above the old top, makes it
  the new top and returns its position, the new value of \<^verbatim>\<open>g_context_stack_top\<close>
  (the nesting depth that the function also stores in the section's \<^verbatim>\<open>depth\<close> field).
\<close>

theorem section_enter_contract:
  assumes "wf_globals cfg g" and "wf_thread cfg g l"
  shows "(idx < 0 \<or> g_section_count g \<le> idx \<longrightarrow>
            narwhalyzer_section_enter cfg now idx (g, l) = (- 1, [], g, l))
       \<and> (g_context_stack_top l + 1 = MAX_NESTING_DEPTH cfg \<longrightarrow>
            fst (narwhalyzer_section_enter cfg now idx (g, l)) = - 1
          \<and> fst (snd (snd (narwhalyzer_section_enter cfg now idx (g, l)))) = g
          \<and> snd (snd (snd (narwhalyzer_section_enter cfg now idx (g, l)))) = l)
       \<and> (0 \<le> idx \<and> idx < g_section_count g \<and> g_context_stack_top l + 1 < MAX_NESTING_DEPTH cfg \<longrightarrow>
            (case narwhalyzer_section_enter cfg now idx (g, l) of (r, err, g', l') \<Rightarrow>
               r = g_context_stack_top l + 1 \<and> 0 \<le> r \<and> g_context_stack_top l' = r
             \<and> length (g_context_stack l') = length (g_context_stack l)
             \<and> take (nat r) (g_context_stack l') = take (nat r) (g_context_stack l)
             \<and> drop (nat r + 1) (g_context_stack l') = drop (nat r + 1) (g_context_stack l)
             \<and> g_context_stack l' ! nat r =
                 \<lparr>section_index = idx, start_time_ns = now,
                  parent_context_index = (if r > 0 then r - 1 else - 1)\<rparr>
             \<and> depth (g_sections g' ! nat idx) = r \<and> err = []))"
  using assms
  by (auto simp: narwhalyzer_section_enter_def wf_thread_def wf_globals_def Let_def)

theorem section_enter_contract_witness:
  "wf_globals cfg2 g_two \<and> wf_thread cfg2 g_two l_in0 \<and> wf_thread cfg2 g_two l_full
   \<and> narwhalyzer_section_enter cfg2 400 2 (g_two, l_in0) = (- 1, [], g_two, l_in0)
   \<and> narwhalyzer_section_enter cfg2 400 (- 1) (g_two, l_in0) = (- 1, [], g_two, l_in0)
   \<and> g_context_stack_top l_full + 1 = MAX_NESTING_DEPTH cfg2
   \<and> fst (narwhalyzer_section_enter cfg2 400 0 (g_two, l_full)) = - 1
   \<and> snd (snd (snd (narwhalyzer_section_enter cfg2 400 0 (g_two, l_full)))) = l_full
   \<and> fst (narwhalyzer_section_enter cfg2 400 1 (g_two, l_in0)) = 1
   \<and> g_context_stack (snd (snd (snd (narwhalyzer_section_enter cfg2 400 1 (g_two, l_in0))))) =
       [\<lparr>section_index = 0, start_time_ns = 200, parent_context_index = - 1\<rparr>,
        \<lparr>section_index = 1, start_time_ns = 400, parent_context_index = 0\<rparr>]"
proof -
  have w: "wf_globals cfg2 g_two" by (simp add: wf_globals_def cfg2_def g_two_def)
  have a: "wf_thread cfg2 g_two l_in0" by (simp add: wf_thread_def cfg2_def l_in0_def g_two_def)
  have b: "wf_thread cfg2 g_two l_full" by (simp add: wf_thread_def cfg2_def l_full_def g_two_def)
  have c: "g_section_count g_two = 2" "g_context_stack_top l_full + 1 = MAX_NESTING_DEPTH cfg2"
    by (simp_all add: g_two_def l_full_def cfg2_def)
  have e: "fst (narwhalyzer_section_enter cfg2 400 1 (g_two, l_in0)) = 1"
    "g_context_stack (snd (snd (snd (narwhalyzer_section_enter cfg2 400 1 (g_two, l_in0))))) =
       [\<lparr>section_index = 0, start_time_ns = 200, parent_context_index = - 1\<rparr>,
        \<lparr>section_index = 1, start_time_ns = 400, parent_context_index = 0\<rparr>]"
    by (simp_all add: narwhalyzer_section_enter_def g_two_def l_in0_def cfg2_def Let_def)
  from section_enter_contract [OF w a, of 2 400] section_enter_contract [OF w a, of "- 1" 400]
    section_enter_contract [OF w b, of 0 400] section_enter_contract [OF w a, of 1 400]
  show ?thesis
    using w a b c e by simp
qed

section \<open>Leaving a section\<close>

lemma update_min_eq: "update_min e c = min e c"
  by (auto simp: update_min_def min_def Let_def)
lemma update_max_eq: "update_max e c = max e c"
  by (auto simp: update_max_def max_def Let_def)

text \<open>
  C7. \<^verbatim>\<open>__narwhalyzer_section_exit\<close> changes nothing when the context id is negative or
  above the top of the calling thread's stack. For an id in range it adds the elapsed
  time to the cumulative time of the section recorded in that context and updates its
  minimum and maximum; no other section, no other global and no stack cell changes;
  the top is decremented exactly when the id is the top, so it never drops below the
  exited context's predecessor.
\<close>

theorem section_exit_contract:
  assumes "wf_globals cfg g" and "wf_thread cfg g l"
  shows "(ctx < 0 \<or> g_context_stack_top l < ctx \<longrightarrow>
            narwhalyzer_section_exit now ctx (g, l) = (g, l))
       \<and> (0 \<le> ctx \<and> ctx \<le> g_context_stack_top l \<longrightarrow>
            (case narwhalyzer_section_exit now ctx (g, l) of (g', l') \<Rightarrow>
               g_context_stack l' = g_context_stack l
             \<and> g_context_stack_top l' =
                 (if ctx = g_context_stack_top l then g_context_stack_top l - 1 else g_context_stack_top l)
             \<and> ctx - 1 \<le> g_context_stack_top l'
             \<and> (let c = g_context_stack l ! nat ctx;
                     k = nat (section_index c);
                     s = g_sections g ! k;
                     elapsed_ns = now - start_time_ns c
                 in k < nat (g_section_count g)
                  \<and> g' = g\<lparr>g_sections := (g_sections g)[k :=
                             s\<lparr>cumulative_time_ns := cumulative_time_ns s + elapsed_ns,
                               min_time_ns := min elapsed_ns (min_time_ns s),
                               max_time_ns := max elapsed_ns (max_time_ns s)\<rparr>]\<rparr>
                  \<and> (\<forall>j. j \<noteq> k \<longrightarrow> g_sections g' ! j = g_sections g ! j))))"
proof -
  have in_range: "0 \<le> section_index (g_context_stack l ! nat ctx) \<and>
      section_index (g_context_stack l ! nat ctx) < g_section_count g"
    if "0 \<le> ctx" "ctx \<le> g_context_stack_top l"
  proof -
    have "nat ctx < length (take (nat (g_context_stack_top l + 1)) (g_context_stack l))"
      using that assms(2) by (simp add: wf_thread_def)
    moreover have "take (nat (g_context_stack_top l + 1)) (g_context_stack l) ! nat ctx = g_context_stack l ! nat ctx"
      using that by simp
    ultimately show ?thesis
      using assms(2) unfolding wf_thread_def list_all_length by metis
  qed
  show ?thesis
    using in_range
    by (auto simp: narwhalyzer_section_exit_def Let_def update_min_eq update_max_eq)
qed

theorem section_exit_contract_witness:
  "wf_globals cfg2 g_two \<and> wf_thread cfg2 g_two l_full
   \<and> narwhalyzer_section_exit 1000 2 (g_two, l_full) = (g_two, l_full)
   \<and> narwhalyzer_section_exit 1000 (- 1) (g_two, l_full) = (g_two, l_full)
   \<and> g_context_stack_top (snd (narwhalyzer_section_exit 1000 1 (g_two, l_full))) = 0
   \<and> g_sections (fst (narwhalyzer_section_exit 1000 1 (g_two, l_full))) =
        [fresh_section ''compute'' (Some ''f.c'') 10,
         (fresh_section ''io'' (Some ''f.c'') 20)
           \<lparr>cumulative_time_ns := 700, min_time_ns := 700, max_time_ns := 700\<rparr>]
   \<and> g_context_stack_top (snd (narwhalyzer_section_exit 1000 0 (g_two, l_full))) = 1
   \<and> g_context_stack (snd (narwhalyzer_section_exit 1000 0 (g_two, l_full))) = g_context_stack l_full
   \<and> g_sections (fst (narwhalyzer_section_exit 1000 0 (g_two, l_full))) =
        [(fresh_section ''compute'' (Some ''f.c'') 10)
           \<lparr>cumulative_time_ns := 800, min_time_ns := 800, max_time_ns := 800\<rparr>,
         fresh_section ''io'' (Some ''f.c'') 20]"
proof -
  have w: "wf_globals cfg2 g_two" by (simp add: wf_globals_def cfg2_def g_two_def)
  have b: "wf_thread cfg2 g_two l_full" by (simp add: wf_thread_def cfg2_def l_full_def g_two_def)
  show ?thesis
    using w b section_exit_contract [OF w b, of 2 1000] section_exit_contract [OF w b, of "- 1" 1000]
      section_exit_contract [OF w b, of 1 1000] section_exit_contract [OF w b, of 0 1000]
    by (simp add: narwhalyzer_section_exit_def g_two_def l_full_def Let_def fresh_section_def
        update_min_def update_max_def UINT64_MAX_def)
qed

section \<open>Registration at capacity and with a null file\<close>

text \<open>
  C8. With the table full, registering a triple that no registered section carries
  returns -1, writes the warning to stderr, and leaves every global as it was: the
  count is back at the capacity and no section is touched.
\<close>

theorem register_at_capacity:
  assumes "wf_globals cfg g"
    and "g_section_count g = MAX_SECTIONS cfg"
    and "\<forall>i < nat (g_section_count g).
           (name (g_sections g ! i), file' (g_sections g ! i), line (g_sections g ! i)) \<noteq> (Some nm, fl, ln)"
  shows "narwhalyzer_register_section cfg now nm fl ln g = (- 1, [warn_max_sections], g)"
proof -
  have "find (\<lambda>i. same_section (g_sections g ! i) nm fl ln) [0 ..< nat (g_section_count g)] = None"
    using assms(3) by (auto simp: find_None_iff same_section_def)
  moreover have "g_initialized g \<noteq> 0"
    using assms(1,2) by (simp add: wf_globals_def)
  ultimately show ?thesis
    using assms(2) by (simp add: narwhalyzer_register_section_def Let_def)
qed

theorem register_at_capacity_witness:
  "wf_globals cfg2 g_two \<and> g_section_count g_two = MAX_SECTIONS cfg2
   \<and> narwhalyzer_register_section cfg2 500 ''net'' (Some ''f.c'') 30 g_two
        = (- 1, [warn_max_sections], g_two)"
proof -
  have w: "wf_globals cfg2 g_two" by (simp add: wf_globals_def cfg2_def g_two_def)
  have c: "g_section_count g_two = MAX_SECTIONS cfg2" by (simp add: cfg2_def g_two_def)
  have d: "\<forall>i < nat (g_section_count g_two).
      (name (g_sections g_two ! i), file' (g_sections g_two ! i), line (g_sections g_two ! i))
        \<noteq> (Some ''net'', Some ''f.c'', 30)"
    by (simp add: g_two_def fresh_section_def numeral_2_eq_2 less_Suc_eq)
  show ?thesis
    using w c register_at_capacity [OF w c d, of 500] by simp
qed

text \<open>
  C10. The lookup needs both file pointers non-null, so with a null file argument it
  finds nothing: below capacity the call takes the next free index (the old count) and
  initialises that slot, and the same call repeated takes the index after it; at
  capacity it returns -1.
\<close>

theorem register_null_file:
  assumes "wf_globals cfg g" and "g_initialized g \<noteq> 0"
  shows "find (\<lambda>i. same_section (g_sections g ! i) nm None ln) [0 ..< nat (g_section_count g)] = None
       \<and> (g_section_count g < MAX_SECTIONS cfg \<longrightarrow>
            narwhalyzer_register_section cfg now nm None ln g =
              (g_section_count g, [],
               g\<lparr>g_section_count := g_section_count g + 1,
                 g_sections := (g_sections g)[nat (g_section_count g) := fresh_section nm None ln]\<rparr>))
       \<and> (g_section_count g + 1 < MAX_SECTIONS cfg \<longrightarrow>
            fst (narwhalyzer_register_section cfg now' nm None ln
                   (snd (snd (narwhalyzer_register_section cfg now nm None ln g))))
              = g_section_count g + 1)
       \<and> (g_section_count g = MAX_SECTIONS cfg \<longrightarrow>
            narwhalyzer_register_section cfg now nm None ln g = (- 1, [warn_max_sections], g))"
proof -
  have nf: "find (\<lambda>i. same_section (g_sections h ! i) nm None ln) [0 ..< n] = None" for h n
    by (simp add: find_None_iff same_section_def)
  show ?thesis
    using assms
    by (auto simp: nf narwhalyzer_register_section_def Let_def fresh_section_def wf_globals_def)
qed

theorem register_null_file_witness:
  "wf_globals cfg2 g_init \<and> g_initialized g_init \<noteq> 0
   \<and> g_section_count g_init + 1 < MAX_SECTIONS cfg2
   \<and> fst (narwhalyzer_register_section cfg2 500 ''anon'' None 7 g_init) = 0
   \<and> fst (narwhalyzer_register_section cfg2 600 ''anon'' None 7
             (snd (snd (narwhalyzer_register_section cfg2 500 ''anon'' None 7 g_init)))) = 1
   \<and> g_section_count g_two = MAX_SECTIONS cfg2
   \<and> narwhalyzer_register_section cfg2 500 ''anon'' None 7 g_two = (- 1, [warn_max_sections], g_two)"
proof -
  have w0: "wf_globals cfg2 g_init" by (simp add: wf_globals_def cfg2_def g_init_def)
  have i0: "g_initialized g_init \<noteq> 0" by (simp add: g_init_def)
  have w: "wf_globals cfg2 g_two" by (simp add: wf_globals_def cfg2_def g_two_def)
  have i2: "g_initialized g_two \<noteq> 0" by (simp add: g_two_def)
  show ?thesis
    using w0 i0 register_null_file [OF w0 i0, of "''anon''" 7 500 600]
      register_null_file [OF w i2, of "''anon''" 7 500 600]
    by (simp add: g_init_def g_two_def cfg2_def narwhalyzer_register_section_def Let_def
        same_section_def fresh_section_def)
qed

section \<open>Calls preserve well-formedness\<close>

lemma wf_thread_mono:
  "wf_thread cfg g l \<Longrightarrow> g_section_count g \<le> g_section_count g' \<Longrightarrow> wf_thread cfg g' l"
  by (auto simp: wf_thread_def list_all_iff)

lemma init_wf: "wf_globals cfg g \<Longrightarrow> wf_globals cfg (narwhalyzer_init now g)"
  by (auto simp: wf_globals_def narwhalyzer_init_def)

lemma init_count [simp]: "g_section_count (narwhalyzer_init now g) = g_section_count g"
  by (simp add: narwhalyzer_init_def)

lemma init_id: "g_initialized g \<noteq> 0 \<Longrightarrow> narwhalyzer_init now g = g"
  by (simp add: narwhalyzer_init_def)

lemma register_wf:
  "wf_globals cfg g \<Longrightarrow> narwhalyzer_register_section cfg now nm fl ln g = (r, err, g')
     \<Longrightarrow> wf_globals cfg g' \<and> g_section_count g \<le> g_section_count g'"
  by (auto simp: narwhalyzer_register_section_def Let_def wf_globals_def narwhalyzer_init_def
      split: option.splits if_splits)

lemma enter_count:
  "narwhalyzer_section_enter cfg now idx (g, l) = (r, err, g', l')
     \<Longrightarrow> g_section_count g' = g_section_count g \<and> g_initialized g' = g_initialized g
       \<and> length (g_sections g') = length (g_sections g)"
  by (auto simp: narwhalyzer_section_enter_def Let_def split: if_splits)

lemma exit_count:
  "narwhalyzer_section_exit now ctx (g, l) = (g', l')
     \<Longrightarrow> g_section_count g' = g_section_count g \<and> g_initialized g' = g_initialized g
       \<and> length (g_sections g') = length (g_sections g)"
  by (auto simp: narwhalyzer_section_exit_def Let_def split: if_splits)

lemma enter_wf_thread:
  assumes "wf_thread cfg g l" and "narwhalyzer_section_enter cfg now idx (g, l) = (r, err, g', l')"
  shows "wf_thread cfg g' l'"
proof (cases "idx < 0 \<or> g_section_count g \<le> idx \<or> MAX_NESTING_DEPTH cfg \<le> g_context_stack_top l + 1")
  case True
  then have "l' = l" "g' = g"
    using assms(2) by (auto simp: narwhalyzer_section_enter_def Let_def split: if_splits)
  then show ?thesis using assms(1) by simp
next
  case False
  define n where "n = nat (g_context_stack_top l + 1)"
  define c where "c = \<lparr>section_index = idx, start_time_ns = now,
                        parent_context_index = (if g_context_stack_top l + 1 > 0 then g_context_stack_top l + 1 - 1 else - 1)\<rparr>"
  have l': "l' = l\<lparr>g_context_stack_top := g_context_stack_top l + 1,
                   g_context_stack := (g_context_stack l)[n := c]\<rparr>"
    and cnt: "g_section_count g' = g_section_count g"
    using assms(2) False by (auto simp: narwhalyzer_section_enter_def Let_def n_def c_def)
  have top: "- 1 \<le> g_context_stack_top l" and len: "length (g_context_stack l) = nat (MAX_NESTING_DEPTH cfg)"
    and old: "list_all (\<lambda>c. 0 \<le> section_index c \<and> section_index c < g_section_count g)
        (take n (g_context_stack l))"
    using assms(1) by (auto simp: wf_thread_def n_def)
  have nlt: "n < length (g_context_stack l)"
    using False top len by (simp add: n_def)
  have "take (nat (g_context_stack_top l + 1 + 1)) ((g_context_stack l)[n := c])
        = take n (g_context_stack l) @ [c]"
  proof -
    have "nat (g_context_stack_top l + 1 + 1) = Suc n" using top by (simp add: n_def)
    then show ?thesis using nlt by (simp add: take_Suc_conv_app_nth)
  qed
  then show ?thesis
    using old False top len unfolding l' wf_thread_def cnt
    by (simp add: c_def)
qed

lemma exit_wf_thread:
  assumes "wf_thread cfg g l" and "narwhalyzer_section_exit now ctx (g, l) = (g', l')"
  shows "wf_thread cfg g' l'"
proof -
  have cnt: "g_section_count g' = g_section_count g"
    using exit_count [OF assms(2)] by simp
  have stack: "g_context_stack l' = g_context_stack l"
    and top: "g_context_stack_top l' = g_context_stack_top l
        \<or> (0 \<le> g_context_stack_top l \<and> g_context_stack_top l' = g_context_stack_top l - 1)"
    using assms(2) by (auto simp: narwhalyzer_section_exit_def Let_def split: if_splits)
  from top show ?thesis
  proof
    assume "g_context_stack_top l' = g_context_stack_top l"
    then show ?thesis using assms(1) stack cnt by (simp add: wf_thread_def)
  next
    assume a: "0 \<le> g_context_stack_top l \<and> g_context_stack_top l' = g_context_stack_top l - 1"
    have "set (take (nat (g_context_stack_top l - 1 + 1)) (g_context_stack l))
        \<subseteq> set (take (nat (g_context_stack_top l + 1)) (g_context_stack l))"
      by (rule set_take_subset_set_take) simp
    then show ?thesis using assms(1) stack cnt a by (auto simp: wf_thread_def list_all_iff)
  qed
qed

lemma api_step_wf:
  assumes "wf_world cfg w"
  shows "wf_world cfg (snd (api_step cfg w c))
       \<and> g_section_count (glob w) \<le> g_section_count (glob (snd (api_step cfg w c)))"
proof (cases c)
  case (Init now)
  then show ?thesis
    using assms by (auto simp: wf_world_def init_wf intro: wf_thread_mono)
next
  case (Register nm fl ln now)
  obtain r err g' where e: "narwhalyzer_register_section cfg now nm fl ln (glob w) = (r, err, g')"
    by (cases "narwhalyzer_register_section cfg now nm fl ln (glob w)") auto
  from register_wf [OF _ e] assms have "wf_globals cfg g'" "g_section_count (glob w) \<le> g_section_count g'"
    by (auto simp: wf_world_def)
  then show ?thesis
    using assms Register e by (auto simp: wf_world_def intro: wf_thread_mono)
next
  case (Enter t idx now)
  obtain r err g' l' where e: "narwhalyzer_section_enter cfg now idx (glob w, tls w t) = (r, err, g', l')"
    by (cases "narwhalyzer_section_enter cfg now idx (glob w, tls w t)") auto
  have g: "wf_globals cfg g'"
    using assms enter_count [OF e] by (simp add: wf_world_def wf_globals_def)
  have l: "wf_thread cfg g' l'"
    using assms enter_wf_thread [OF _ e] by (simp add: wf_world_def)
  have o: "wf_thread cfg g' (tls w u)" for u
    using assms enter_count [OF e] by (auto simp: wf_world_def intro: wf_thread_mono)
  show ?thesis
    using Enter e g l o enter_count [OF e] by (simp add: wf_world_def)
next
  case (Exit t ctx now)
  obtain g' l' where e: "narwhalyzer_section_exit now ctx (glob w, tls w t) = (g', l')"
    by (cases "narwhalyzer_section_exit now ctx (glob w, tls w t)") auto
  have g: "wf_globals cfg g'"
    using assms exit_count [OF e] by (simp add: wf_world_def wf_globals_def)
  have l: "wf_thread cfg g' l'"
    using assms exit_wf_thread [OF _ e] by (simp add: wf_world_def)
  have o: "wf_thread cfg g' (tls w u)" for u
    using assms exit_count [OF e] by (auto simp: wf_world_def intro: wf_thread_mono)
  show ?thesis
    using Exit e g l o exit_count [OF e] by (simp add: wf_world_def)
qed

lemma api_run_Nil [simp]: "api_run cfg w [] = w"
  by (simp add: api_run_def)

lemma api_run_Cons [simp]: "api_run cfg w (c # cs) = api_run cfg (snd (api_step cfg w c)) cs"
  by (simp add: api_run_def)

lemma api_run_append: "api_run cfg w (cs @ ds) = api_run cfg (api_run cfg w cs) ds"
  by (simp add: api_run_def)

lemma api_run_wf:
  "wf_world cfg w \<Longrightarrow> wf_world cfg (api_run cfg w cs)
     \<and> g_section_count (glob w) \<le> g_section_count (glob (api_run cfg w cs))"
proof (induction cs arbitrary: w)
  case Nil
  then show ?case by simp
next
  case (Cons c cs)
  from api_step_wf [OF Cons.prems, of c] Cons.IH [of "snd (api_step cfg w c)"]
  show ?case by force
qed

lemma initial_world_wf:
  "0 < MAX_SECTIONS cfg \<Longrightarrow> 0 \<le> MAX_NESTING_DEPTH cfg \<Longrightarrow> wf_world cfg (initial_world cfg)"
  by (simp add: wf_world_def initial_world_def wf_globals_def wf_thread_def initial_globals_def
      initial_thread_locals_def)

section \<open>The parent of a section\<close>

lemma nth_update_field:
  assumes "\<And>s. f (h s) = f s"
  shows "f ((xs[k := h (xs ! k)]) ! j) = f (xs ! j)"
proof (cases "k < length xs")
  case True
  then show ?thesis by (cases "k = j") (auto simp: assms)
next
  case False
  then show ?thesis by (simp add: list_update_beyond)
qed

lemma register_keeps_sections:
  assumes "wf_globals cfg g" and "narwhalyzer_register_section cfg now nm fl ln g = (r, err, g')"
    and "i < nat (g_section_count g)"
  shows "g_sections g' ! i = g_sections g ! i"
  using assms
  by (auto simp: narwhalyzer_register_section_def Let_def wf_globals_def narwhalyzer_init_def
      split: option.splits if_splits)

lemma enter_parent_sticky:
  assumes "narwhalyzer_section_enter cfg now idx (g, l) = (r, err, g', l')"
    and "parent_index (g_sections g ! j) \<noteq> - 1"
  shows "parent_index (g_sections g' ! j) = parent_index (g_sections g ! j)"
proof (cases "idx < 0 \<or> g_section_count g \<le> idx \<or> MAX_NESTING_DEPTH cfg \<le> g_context_stack_top l + 1")
  case True
  then have "g' = g"
    using assms(1) by (auto simp: narwhalyzer_section_enter_def Let_def split: if_splits)
  then show ?thesis by simp
next
  case False
  define pc where "pc = section_index ((g_context_stack l)[nat (g_context_stack_top l + 1) :=
       \<lparr>section_index = idx, start_time_ns = now,
        parent_context_index = (if g_context_stack_top l + 1 > 0 then g_context_stack_top l + 1 - 1 else - 1)\<rparr>]
       ! nat (g_context_stack_top l + 1 - 1))"
  define h where "h = (\<lambda>s :: narwhalyzer_section_stats.
       (if parent_index s = - 1 \<and> g_context_stack_top l + 1 > 0
        then s\<lparr>entry_count := entry_count s + 1, parent_index := pc\<rparr>
        else s\<lparr>entry_count := entry_count s + 1\<rparr>)\<lparr>depth := g_context_stack_top l + 1\<rparr>)"
  have g': "g_sections g' = (g_sections g)[nat idx := h (g_sections g ! nat idx)]"
    using assms(1) False by (auto simp: narwhalyzer_section_enter_def Let_def h_def pc_def)
  show ?thesis
  proof (cases "nat idx = j \<and> j < length (g_sections g)")
    case True
    then show ?thesis using assms(2) by (auto simp: g' h_def)
  next
    case False
    then have "(g_sections g)[nat idx := h (g_sections g ! nat idx)] ! j = g_sections g ! j"
      by (cases "nat idx < length (g_sections g)") (auto simp: list_update_beyond)
    then show ?thesis by (simp add: g')
  qed
qed

lemma exit_keeps_fields:
  assumes "narwhalyzer_section_exit now ctx (g, l) = (g', l')"
  shows "parent_index (g_sections g' ! j) = parent_index (g_sections g ! j)
       \<and> entry_count (g_sections g' ! j) = entry_count (g_sections g ! j)
       \<and> name (g_sections g' ! j) = name (g_sections g ! j)
       \<and> file' (g_sections g' ! j) = file' (g_sections g ! j)
       \<and> line (g_sections g' ! j) = line (g_sections g ! j)"
proof (cases "ctx < 0 \<or> g_context_stack_top l < ctx")
  case True
  then have "g' = g" using assms by (auto simp: narwhalyzer_section_exit_def Let_def)
  then show ?thesis by simp
next
  case False
  define k where "k = nat (section_index (g_context_stack l ! nat ctx))"
  define e where "e = now - start_time_ns (g_context_stack l ! nat ctx)"
  define h where "h = (\<lambda>s :: narwhalyzer_section_stats.
       s\<lparr>cumulative_time_ns := cumulative_time_ns s + e,
         min_time_ns := update_min e (min_time_ns s),
         max_time_ns := update_max e (max_time_ns s)\<rparr>)"
  have g': "g_sections g' = (g_sections g)[k := h (g_sections g ! k)]"
    using assms False by (auto simp: narwhalyzer_section_exit_def Let_def k_def h_def e_def)
  show ?thesis
    unfolding g'
    by (intro conjI nth_update_field) (simp_all add: h_def)
qed

lemma api_step_parent_sticky:
  assumes "wf_world cfg w" and "0 \<le> B" and "B < g_section_count (glob w)"
    and "parent_index (section_at w B) \<noteq> - 1"
  shows "parent_index (section_at (snd (api_step cfg w c)) B) = parent_index (section_at w B)"
proof (cases c)
  case (Init now)
  have "g_initialized (glob w) \<noteq> 0"
    using assms by (auto simp: wf_world_def wf_globals_def)
  then show ?thesis using Init by (simp add: init_id section_at_def)
next
  case (Register nm fl ln now)
  obtain r err g' where e: "narwhalyzer_register_section cfg now nm fl ln (glob w) = (r, err, g')"
    by (cases "narwhalyzer_register_section cfg now nm fl ln (glob w)") auto
  have "g_sections g' ! nat B = g_sections (glob w) ! nat B"
    using register_keeps_sections [OF _ e, of "nat B"] assms by (simp add: wf_world_def)
  then show ?thesis using Register e by (simp add: section_at_def)
next
  case (Enter t idx now)
  obtain r err g' l' where e: "narwhalyzer_section_enter cfg now idx (glob w, tls w t) = (r, err, g', l')"
    by (cases "narwhalyzer_section_enter cfg now idx (glob w, tls w t)") auto
  show ?thesis
    using Enter e enter_parent_sticky [OF e, of "nat B"] assms(4) by (simp add: section_at_def)
next
  case (Exit t ctx now)
  obtain g' l' where e: "narwhalyzer_section_exit now ctx (glob w, tls w t) = (g', l')"
    by (cases "narwhalyzer_section_exit now ctx (glob w, tls w t)") auto
  show ?thesis
    using Exit e exit_keeps_fields [OF e, of "nat B"] by (simp add: section_at_def)
qed

lemma api_run_parent_sticky:
  assumes "wf_world cfg w" and "0 \<le> B" and "B < g_section_count (glob w)"
    and "parent_index (section_at w B) \<noteq> - 1"
  shows "parent_index (section_at (api_run cfg w cs) B) = parent_index (section_at w B)"
  using assms
proof (induction cs arbitrary: w)
  case Nil
  then show ?case by simp
next
  case (Cons c cs)
  let ?w = "snd (api_step cfg w c)"
  have p: "parent_index (section_at ?w B) = parent_index (section_at w B)"
    by (rule api_step_parent_sticky) (use Cons.prems in auto)
  have "wf_world cfg ?w" "B < g_section_count (glob ?w)"
    using api_step_wf [OF Cons.prems(1), of c] Cons.prems(3) by auto
  from Cons.IH [OF this(1) Cons.prems(2) this(2)] p Cons.prems(4)
  show ?case by simp
qed

lemma stack_cell_in_range:
  assumes "wf_thread cfg g l" and "0 \<le> k" and "k \<le> g_context_stack_top l"
  shows "0 \<le> section_index (g_context_stack l ! nat k)
       \<and> section_index (g_context_stack l ! nat k) < g_section_count g"
proof -
  have "nat k < length (take (nat (g_context_stack_top l + 1)) (g_context_stack l))"
    using assms by (simp add: wf_thread_def)
  moreover have "take (nat (g_context_stack_top l + 1)) (g_context_stack l) ! nat k = g_context_stack l ! nat k"
    using assms by simp
  ultimately show ?thesis
    using assms(1) unfolding wf_thread_def list_all_length by metis
qed

text \<open>
  C9. While the \<^verbatim>\<open>parent_index\<close> of section \<open>B\<close> is still -1, an enter of \<open>B\<close> on a
  thread whose stack is not empty sets it to the section recorded in the context
  directly beneath the new one (a registered section, so the field is no longer -1);
  an enter of \<open>B\<close> on an empty stack leaves it at -1. Once it is not -1, no sequence of
  calls of any threads (init, register, enter, exit) changes it.
\<close>

theorem parent_index_set_once:
  assumes "wf_world cfg w" and "0 \<le> B" and "B < g_section_count (glob w)"
  shows "(parent_index (section_at w B) = - 1 \<and> 0 \<le> g_context_stack_top (tls w t)
            \<and> g_context_stack_top (tls w t) + 1 < MAX_NESTING_DEPTH cfg \<longrightarrow>
           parent_index (section_at (snd (api_step cfg w (Enter t B now))) B)
             = section_index (g_context_stack (tls w t) ! nat (g_context_stack_top (tls w t)))
         \<and> parent_index (section_at (snd (api_step cfg w (Enter t B now))) B) \<noteq> - 1)
       \<and> (parent_index (section_at w B) = - 1 \<and> g_context_stack_top (tls w t) = - 1 \<longrightarrow>
           parent_index (section_at (snd (api_step cfg w (Enter t B now))) B) = - 1)
       \<and> (parent_index (section_at w B) \<noteq> - 1 \<longrightarrow>
           parent_index (section_at (api_run cfg w cs) B) = parent_index (section_at w B))"
proof (intro conjI impI)
  assume a: "parent_index (section_at w B) = - 1 \<and> 0 \<le> g_context_stack_top (tls w t)
            \<and> g_context_stack_top (tls w t) + 1 < MAX_NESTING_DEPTH cfg"
  have len: "nat B < length (g_sections (glob w))"
    using assms by (auto simp: wf_world_def wf_globals_def)
  have tl: "nat (g_context_stack_top (tls w t)) < length (g_context_stack (tls w t))"
    using assms(1) a by (auto simp: wf_world_def wf_thread_def)
  show eq: "parent_index (section_at (snd (api_step cfg w (Enter t B now))) B)
             = section_index (g_context_stack (tls w t) ! nat (g_context_stack_top (tls w t)))"
    using a assms(2,3) len tl
    by (simp add: narwhalyzer_section_enter_def Let_def section_at_def nat_add_distrib)
  have "wf_thread cfg (glob w) (tls w t)" using assms(1) by (simp add: wf_world_def)
  from stack_cell_in_range [OF this, of "g_context_stack_top (tls w t)"] a
  show "parent_index (section_at (snd (api_step cfg w (Enter t B now))) B) \<noteq> - 1"
    unfolding eq by simp
next
  assume a: "parent_index (section_at w B) = - 1 \<and> g_context_stack_top (tls w t) = - 1"
  have len: "nat B < length (g_sections (glob w))"
    using assms by (auto simp: wf_world_def wf_globals_def)
  show "parent_index (section_at (snd (api_step cfg w (Enter t B now))) B) = - 1"
    using a assms(2,3) len
    by (simp add: narwhalyzer_section_enter_def Let_def section_at_def)
next
  assume "parent_index (section_at w B) \<noteq> - 1"
  then show "parent_index (section_at (api_run cfg w cs) B) = parent_index (section_at w B)"
    by (rule api_run_parent_sticky [OF assms])
qed

theorem parent_index_set_once_witness:
  "wf_world cfg2 w_in0 \<and> parent_index (section_at w_in0 1) = - 1
   \<and> g_context_stack_top (tls w_in0 0) = 0
   \<and> parent_index (section_at (snd (api_step cfg2 w_in0 (Enter 0 1 400))) 1) = 0
   \<and> g_context_stack_top (tls w_in0 3) = - 1
   \<and> parent_index (section_at (snd (api_step cfg2 w_in0 (Enter 3 1 400))) 1) = - 1
   \<and> wf_world cfg2 w_nested \<and> parent_index (section_at w_nested 1) = 0
   \<and> parent_index (section_at (api_run cfg2 w_nested
        [Exit 0 1 500, Exit 0 0 600, Enter 0 1 700, Enter 0 1 800, Enter 3 1 900]) 1) = 0"
proof -
  have w1: "wf_world cfg2 w_in0"
    by (simp add: wf_world_def w_in0_def wf_globals_def wf_thread_def g_two_def cfg2_def l_in0_def
        initial_thread_locals_def)
  have w2: "wf_world cfg2 w_nested"
    by (simp add: wf_world_def w_nested_def wf_globals_def wf_thread_def g_nested_def cfg2_def l_full_def
        initial_thread_locals_def)
  have c: "(0::int) \<le> 1" "1 < g_section_count (glob w_in0)" "1 < g_section_count (glob w_nested)"
    by (simp_all add: w_in0_def w_nested_def g_two_def g_nested_def)
  have d: "parent_index (section_at w_in0 1) = - 1" "g_context_stack_top (tls w_in0 0) = 0"
    "g_context_stack_top (tls w_in0 3) = - 1" "parent_index (section_at w_nested 1) = 0"
    "MAX_NESTING_DEPTH cfg2 = 2"
    "section_index (g_context_stack (tls w_in0 0) ! nat 0) = 0"
    by (simp_all add: section_at_def w_in0_def w_nested_def g_two_def g_nested_def fresh_section_def
        l_in0_def initial_thread_locals_def cfg2_def)
  from parent_index_set_once [OF w1 c(1,2), of 0 400] parent_index_set_once [OF w1 c(1,2), of 3 400]
    parent_index_set_once [OF w2 c(1,3), of _ _ "[Exit 0 1 500, Exit 0 0 600, Enter 0 1 700, Enter 0 1 800, Enter 3 1 900]"]
  show ?thesis
    using w1 w2 d by simp
qed

section \<open>Registration: one index per identity\<close>

lemma find_upt_Some_iff:
  "find P [0 ..< n] = Some i \<longleftrightarrow> i < n \<and> P i \<and> (\<forall>j < i. \<not> P j)"
proof -
  have "find P [0 ..< n] = Some i \<longleftrightarrow>
      (\<exists>k < length [0 ..< n]. P ([0 ..< n] ! k) \<and> i = [0 ..< n] ! k \<and> (\<forall>j < k. \<not> P ([0 ..< n] ! j)))"
    by (rule find_Some_iff)
  also have "\<dots> \<longleftrightarrow> i < n \<and> P i \<and> (\<forall>j < i. \<not> P j)"
    by auto
  finally show ?thesis .
qed

lemma find_upt_None_iff: "find P [0 ..< n] = None \<longleftrightarrow> (\<forall>j < n. \<not> P j)"
  by (auto simp: find_None_iff)

lemma same_section_id:
  "same_section s nm fl ln \<longleftrightarrow> fl \<noteq> None \<and> (name s, file' s, line s) = (Some nm, fl, ln)"
  by (auto simp: same_section_def)

lemma enter_keeps_identity:
  assumes "narwhalyzer_section_enter cfg now idx (g, l) = (r, err, g', l')"
  shows "name (g_sections g' ! j) = name (g_sections g ! j)
       \<and> file' (g_sections g' ! j) = file' (g_sections g ! j)
       \<and> line (g_sections g' ! j) = line (g_sections g ! j)"
proof (cases "idx < 0 \<or> g_section_count g \<le> idx \<or> MAX_NESTING_DEPTH cfg \<le> g_context_stack_top l + 1")
  case True
  then have "g' = g"
    using assms(1) by (auto simp: narwhalyzer_section_enter_def Let_def split: if_splits)
  then show ?thesis by simp
next
  case False
  define pc where "pc = section_index ((g_context_stack l)[nat (g_context_stack_top l + 1) :=
       \<lparr>section_index = idx, start_time_ns = now,
        parent_context_index = (if g_context_stack_top l + 1 > 0 then g_context_stack_top l + 1 - 1 else - 1)\<rparr>]
       ! nat (g_context_stack_top l + 1 - 1))"
  define h where "h = (\<lambda>s :: narwhalyzer_section_stats.
       (if parent_index s = - 1 \<and> g_context_stack_top l + 1 > 0
        then s\<lparr>entry_count := entry_count s + 1, parent_index := pc\<rparr>
        else s\<lparr>entry_count := entry_count s + 1\<rparr>)\<lparr>depth := g_context_stack_top l + 1\<rparr>)"
  have g': "g_sections g' = (g_sections g)[nat idx := h (g_sections g ! nat idx)]"
    using assms(1) False by (auto simp: narwhalyzer_section_enter_def Let_def h_def pc_def)
  show ?thesis
    unfolding g'
    by (intro conjI nth_update_field) (simp_all add: h_def)
qed

text \<open>Every call leaves the identity of the registered sections as it is.\<close>

lemma api_step_keeps_identity:
  assumes "wf_world cfg w" and "i < nat (g_section_count (glob w))"
  shows "name (g_sections (glob (snd (api_step cfg w c))) ! i) = name (g_sections (glob w) ! i)
       \<and> file' (g_sections (glob (snd (api_step cfg w c))) ! i) = file' (g_sections (glob w) ! i)
       \<and> line (g_sections (glob (snd (api_step cfg w c))) ! i) = line (g_sections (glob w) ! i)"
proof (cases c)
  case (Init now)
  have "g_initialized (glob w) \<noteq> 0"
    using assms by (auto simp: wf_world_def wf_globals_def)
  then show ?thesis using Init by (simp add: init_id)
next
  case (Register nm fl ln now)
  obtain r err g' where e: "narwhalyzer_register_section cfg now nm fl ln (glob w) = (r, err, g')"
    by (cases "narwhalyzer_register_section cfg now nm fl ln (glob w)") auto
  have "g_sections g' ! i = g_sections (glob w) ! i"
    using register_keeps_sections [OF _ e, of i] assms by (simp add: wf_world_def)
  then show ?thesis using Register e by simp
next
  case (Enter t idx now)
  obtain r err g' l' where e: "narwhalyzer_section_enter cfg now idx (glob w, tls w t) = (r, err, g', l')"
    by (cases "narwhalyzer_section_enter cfg now idx (glob w, tls w t)") auto
  show ?thesis
    using Enter e enter_keeps_identity [OF e, of i] by simp
next
  case (Exit t ctx now)
  obtain g' l' where e: "narwhalyzer_section_exit now ctx (glob w, tls w t) = (g', l')"
    by (cases "narwhalyzer_section_exit now ctx (glob w, tls w t)") auto
  show ?thesis
    using Exit e exit_keeps_fields [OF e, of i] by simp
qed

lemma api_run_keeps_identity:
  assumes "wf_world cfg w" and "i < nat (g_section_count (glob w))"
  shows "name (g_sections (glob (api_run cfg w cs)) ! i) = name (g_sections (glob w) ! i)
       \<and> file' (g_sections (glob (api_run cfg w cs)) ! i) = file' (g_sections (glob w) ! i)
       \<and> line (g_sections (glob (api_run cfg w cs)) ! i) = line (g_sections (glob w) ! i)"
  using assms
proof (induction cs arbitrary: w)
  case Nil
  then show ?case by simp
next
  case (Cons c cs)
  let ?w = "snd (api_step cfg w c)"
  have "wf_world cfg ?w" "i < nat (g_section_count (glob ?w))"
    using api_step_wf [OF Cons.prems(1), of c] Cons.prems(2) by auto
  from Cons.IH [OF this] api_step_keeps_identity [OF Cons.prems, of c]
  show ?case by simp
qed

lemma lookup_step_Some:
  assumes "wf_world cfg w" and "lookup (glob w) nm fl ln = Some i"
  shows "lookup (glob (snd (api_step cfg w c))) nm fl ln = Some i"
proof -
  let ?g = "glob w" and ?g' = "glob (snd (api_step cfg w c))"
  have i: "i < nat (g_section_count ?g)" "same_section (g_sections ?g ! i) nm fl ln"
    "\<forall>j < i. \<not> same_section (g_sections ?g ! j) nm fl ln"
    using assms(2) by (auto simp: lookup_def find_upt_Some_iff)
  have cnt: "g_section_count ?g \<le> g_section_count ?g'"
    using api_step_wf [OF assms(1), of c] by simp
  have same: "same_section (g_sections ?g' ! j) nm fl ln = same_section (g_sections ?g ! j) nm fl ln"
    if "j < nat (g_section_count ?g)" for j
    using api_step_keeps_identity [OF assms(1) that, of c] by (simp add: same_section_def)
  have "i < nat (g_section_count ?g')" using i(1) cnt by simp
  moreover have "same_section (g_sections ?g' ! i) nm fl ln" using same [OF i(1)] i(2) by simp
  moreover have "\<forall>j < i. \<not> same_section (g_sections ?g' ! j) nm fl ln"
    using same i(1,3) by (metis less_trans)
  ultimately show ?thesis by (simp add: lookup_def find_upt_Some_iff)
qed

lemma lookup_step_full:
  assumes "wf_world cfg w" and "lookup (glob w) nm fl ln = None"
    and "g_section_count (glob w) = MAX_SECTIONS cfg"
  shows "lookup (glob (snd (api_step cfg w c))) nm fl ln = None
       \<and> g_section_count (glob (snd (api_step cfg w c))) = MAX_SECTIONS cfg"
proof -
  let ?g = "glob w" and ?g' = "glob (snd (api_step cfg w c))"
  have "wf_globals cfg ?g'" "g_section_count ?g \<le> g_section_count ?g'"
    using api_step_wf [OF assms(1), of c] by (simp_all add: wf_world_def)
  then have cnt: "g_section_count ?g' = g_section_count ?g"
    using assms(3) by (simp add: wf_globals_def)
  have same: "same_section (g_sections ?g' ! j) nm fl ln = same_section (g_sections ?g ! j) nm fl ln"
    if "j < nat (g_section_count ?g)" for j
    using api_step_keeps_identity [OF assms(1) that, of c] by (simp add: same_section_def)
  have "\<forall>j < nat (g_section_count ?g). \<not> same_section (g_sections ?g ! j) nm fl ln"
    using assms(2) by (simp add: lookup_def find_upt_None_iff)
  then have "lookup ?g' nm fl ln = None"
    using same by (simp add: lookup_def find_upt_None_iff cnt)
  then show ?thesis using cnt assms(3) by simp
qed

lemma settled_step:
  "wf_world cfg w \<Longrightarrow> settled cfg (glob w) nm fl ln r
     \<Longrightarrow> settled cfg (glob (snd (api_step cfg w c))) nm fl ln r"
  unfolding settled_def
  using lookup_step_Some [of cfg w nm fl ln "nat r" c] lookup_step_full [of cfg w nm fl ln c]
  by blast

lemma settled_run:
  "wf_world cfg w \<Longrightarrow> settled cfg (glob w) nm fl ln r
     \<Longrightarrow> settled cfg (glob (api_run cfg w cs)) nm fl ln r"
proof (induction cs arbitrary: w)
  case Nil
  then show ?case by simp
next
  case (Cons c cs)
  have "wf_world cfg (snd (api_step cfg w c))"
    using api_step_wf [OF Cons.prems(1), of c] by simp
  from Cons.IH [OF this settled_step [OF Cons.prems]] show ?case by simp
qed

lemma lookup_init:
  assumes "wf_globals cfg g"
  shows "lookup (if g_initialized g = 0 then narwhalyzer_init now g else g) nm fl ln = lookup g nm fl ln"
proof (cases "g_initialized g = 0")
  case True
  then have "g_section_count g = 0" using assms by (auto simp: wf_globals_def)
  then show ?thesis using True by (simp add: lookup_def)
next
  case False
  then show ?thesis by simp
qed

lemma register_found:
  assumes "wf_globals cfg g" and "lookup g nm fl ln = Some i"
  shows "narwhalyzer_register_section cfg now nm fl ln g = (int i, [], g)"
proof -
  have "0 < g_section_count g"
    using assms(2) by (auto simp: lookup_def find_upt_Some_iff)
  then have "g_initialized g \<noteq> 0" using assms(1) by (simp add: wf_globals_def)
  then show ?thesis
    using assms(2) by (simp add: narwhalyzer_register_section_def lookup_def Let_def)
qed

lemma register_new:
  assumes "wf_globals cfg g" and "lookup g nm fl ln = None"
  shows "narwhalyzer_register_section cfg now nm fl ln g =
      (let g1 = (if g_initialized g = 0 then narwhalyzer_init now g else g) in
       if MAX_SECTIONS cfg \<le> g_section_count g then (- 1, [warn_max_sections], g1)
       else (g_section_count g, [],
             g1\<lparr>g_section_count := g_section_count g + 1,
                g_sections := (g_sections g1)[nat (g_section_count g) := fresh_section nm fl ln]\<rparr>))"
proof -
  have "lookup (if g_initialized g = 0 then narwhalyzer_init now g else g) nm fl ln = None"
    using lookup_init [OF assms(1)] assms(2) by simp
  then show ?thesis
    by (auto simp: narwhalyzer_register_section_def lookup_def Let_def fresh_section_def)
qed

lemma register_settles:
  assumes "wf_globals cfg g" and "fl \<noteq> None"
    and "narwhalyzer_register_section cfg now nm fl ln g = (r, err, g')"
  shows "settled cfg g' nm fl ln r"
proof (cases "lookup g nm fl ln")
  case (Some i)
  then show ?thesis
    using register_found [OF assms(1) Some, of now] assms(3) by (simp add: settled_def)
next
  case None
  let ?g1 = "if g_initialized g = 0 then narwhalyzer_init now g else g"
  have l1: "lookup ?g1 nm fl ln = None" using lookup_init [OF assms(1)] None by simp
  have c1: "g_section_count ?g1 = g_section_count g" by simp
  have len: "length (g_sections ?g1) = nat (MAX_SECTIONS cfg)"
    using assms(1) by (simp add: wf_globals_def narwhalyzer_init_def)
  show ?thesis
  proof (cases "MAX_SECTIONS cfg \<le> g_section_count g")
    case True
    then have "r = - 1" "g' = ?g1"
      using register_new [OF assms(1) None, of now] assms(3) by (simp_all add: Let_def)
    moreover have "g_section_count g = MAX_SECTIONS cfg"
      using True assms(1) by (simp add: wf_globals_def)
    ultimately show ?thesis using l1 by (simp add: settled_def)
  next
    case False
    define n where "n = nat (g_section_count g)"
    have r: "r = g_section_count g"
      and g': "g' = ?g1\<lparr>g_section_count := g_section_count g + 1,
                g_sections := (g_sections ?g1)[n := fresh_section nm fl ln]\<rparr>"
      using register_new [OF assms(1) None, of now] assms(3) False by (simp_all add: Let_def n_def)
    have n: "n < length (g_sections ?g1)" "0 \<le> g_section_count g"
      using False assms(1) len by (auto simp: wf_globals_def n_def)
    have none: "\<forall>j < n. \<not> same_section (g_sections ?g1 ! j) nm fl ln"
      using l1 by (simp add: lookup_def find_upt_None_iff n_def)
    have "find (\<lambda>i. same_section ((g_sections ?g1)[n := fresh_section nm fl ln] ! i) nm fl ln) [0 ..< Suc n] = Some n"
      unfolding find_upt_Some_iff using none n(1) assms(2)
      by (auto simp: same_section_def fresh_section_def)
    moreover have "nat (g_section_count g + 1) = Suc n" using n(2) by (simp add: n_def)
    ultimately have "lookup g' nm fl ln = Some n"
      unfolding lookup_def g' by simp
    then show ?thesis using r n(2) by (simp add: settled_def n_def)
  qed
qed

lemma settled_register:
  assumes "wf_globals cfg g" and "settled cfg g nm fl ln r"
  shows "fst (narwhalyzer_register_section cfg now nm fl ln g) = r"
  using assms(2) unfolding settled_def
proof
  assume "0 \<le> r \<and> lookup g nm fl ln = Some (nat r)"
  then show ?thesis using register_found [OF assms(1), of nm fl ln "nat r" now] by simp
next
  assume "r = - 1 \<and> lookup g nm fl ln = None \<and> g_section_count g = MAX_SECTIONS cfg"
  then show ?thesis using register_new [OF assms(1), of nm fl ln now] by (simp add: Let_def)
qed

lemma register_stores:
  assumes "wf_globals cfg g" and "narwhalyzer_register_section cfg now nm fl ln g = (r, err, g')"
    and "0 \<le> r"
  shows "nat r < nat (g_section_count g')
       \<and> name (g_sections g' ! nat r) = Some nm \<and> file' (g_sections g' ! nat r) = fl
       \<and> line (g_sections g' ! nat r) = ln"
proof (cases "lookup g nm fl ln")
  case (Some i)
  have "i < nat (g_section_count g)" "same_section (g_sections g ! i) nm fl ln"
    using Some by (auto simp: lookup_def find_upt_Some_iff)
  then show ?thesis
    using register_found [OF assms(1) Some, of now] assms(2) by (auto simp: same_section_def)
next
  case None
  have len: "length (g_sections (if g_initialized g = 0 then narwhalyzer_init now g else g)) = nat (MAX_SECTIONS cfg)"
    using assms(1) by (simp add: wf_globals_def narwhalyzer_init_def)
  show ?thesis
    using register_new [OF assms(1) None, of now] assms(1,2,3) len
    by (auto simp: Let_def fresh_section_def wf_globals_def narwhalyzer_init_def split: if_splits)
qed

text \<open>
  C2 (amended). Take any well-formed state, register a triple, let any calls follow,
  and register a triple again. If the second triple is the first and its file is not
  null, the second call returns what the first returned. If the triples differ and
  neither call returned -1, the two results differ (null files included).
\<close>

theorem register_idempotent_injective:
  assumes "wf_world cfg w"
    and "api_step cfg w (Register nm fl ln t1) = (Some r1, w1)"
    and "api_step cfg (api_run cfg w1 cs) (Register nm' fl' ln' t2) = (Some r2, w2)"
  shows "((nm', fl', ln') = (nm, fl, ln) \<and> fl \<noteq> None \<longrightarrow> r2 = r1)
       \<and> ((nm', fl', ln') \<noteq> (nm, fl, ln) \<and> r1 \<noteq> - 1 \<and> r2 \<noteq> - 1 \<longrightarrow> r2 \<noteq> r1)"
proof -
  let ?w = "api_run cfg w1 cs"
  obtain e1 g1 where reg1: "narwhalyzer_register_section cfg t1 nm fl ln (glob w) = (r1, e1, g1)"
    and w1: "w1 = w\<lparr>glob := g1\<rparr>"
    using assms(2) by (auto split: prod.splits)
  obtain e2 g2 where reg2: "narwhalyzer_register_section cfg t2 nm' fl' ln' (glob ?w) = (r2, e2, g2)"
    and w2: "w2 = ?w\<lparr>glob := g2\<rparr>"
    using assms(3) by (auto split: prod.splits)
  have wfg: "wf_globals cfg (glob w)" using assms(1) by (simp add: wf_world_def)
  have wf1: "wf_world cfg w1"
    using api_step_wf [OF assms(1), of "Register nm fl ln t1"] assms(2) by simp
  have wf': "wf_world cfg ?w" and cnt': "g_section_count (glob w1) \<le> g_section_count (glob ?w)"
    using api_run_wf [OF wf1, of cs] by simp_all
  have wfg': "wf_globals cfg (glob ?w)" using wf' by (simp add: wf_world_def)
  have idem: "r2 = r1" if "(nm', fl', ln') = (nm, fl, ln)" "fl \<noteq> None"
  proof -
    have "settled cfg (glob w1) nm fl ln r1"
      using register_settles [OF wfg that(2) reg1] w1 by simp
    then have "settled cfg (glob ?w) nm fl ln r1" by (rule settled_run [OF wf1])
    from settled_register [OF wfg' this, of t2] reg2 that(1) show ?thesis by simp
  qed
  have inj: "r2 \<noteq> r1" if "(nm', fl', ln') \<noteq> (nm, fl, ln)" "r1 \<noteq> - 1" "r2 \<noteq> - 1"
  proof
    assume eq: "r2 = r1"
    have r1: "0 \<le> r1"
      using reg1 that(2) wfg
      by (auto simp: narwhalyzer_register_section_def Let_def wf_globals_def split: option.splits if_splits)
    have s1: "nat r1 < nat (g_section_count (glob w1))"
      "name (g_sections (glob w1) ! nat r1) = Some nm" "file' (g_sections (glob w1) ! nat r1) = fl"
      "line (g_sections (glob w1) ! nat r1) = ln"
      using register_stores [OF wfg reg1 r1] w1 by simp_all
    have s': "nat r1 < nat (g_section_count (glob ?w))"
      "name (g_sections (glob ?w) ! nat r1) = Some nm" "file' (g_sections (glob ?w) ! nat r1) = fl"
      "line (g_sections (glob ?w) ! nat r1) = ln"
      using api_run_keeps_identity [OF wf1 s1(1), of cs] s1 cnt' by simp_all
    have k: "g_sections g2 ! nat r1 = g_sections (glob ?w) ! nat r1"
      using register_keeps_sections [OF wfg' reg2 s'(1)] .
    have "name (g_sections g2 ! nat r2) = Some nm'" "file' (g_sections g2 ! nat r2) = fl'"
      "line (g_sections g2 ! nat r2) = ln'"
      using register_stores [OF wfg' reg2] r1 eq by simp_all
    then show False using k s' eq that(1) by simp
  qed
  show ?thesis using idem inj by blast
qed

lemma api_step_Register_fst:
  "fst (api_step cfg w (Register nm fl ln now))
     = Some (fst (narwhalyzer_register_section cfg now nm fl ln (glob w)))"
  by (simp split: prod.splits)

lemma api_step_Register_glob:
  "glob (snd (api_step cfg w (Register nm fl ln now)))
     = snd (snd (narwhalyzer_register_section cfg now nm fl ln (glob w)))"
  by (simp split: prod.splits)

lemma register_compute_initial:
  "narwhalyzer_register_section cfg2 100 ''compute'' (Some ''f.c'') 10 (initial_globals cfg2) = (0, [], g_one)"
  by (simp add: narwhalyzer_register_section_def initial_globals_def cfg2_def narwhalyzer_init_def
      g_one_def fresh_section_def Let_def numeral_2_eq_2)

lemma register_io_g_one:
  "narwhalyzer_register_section cfg2 now ''io'' (Some ''f.c'') 20 g_one = (1, [], g_two)"
  by (simp add: narwhalyzer_register_section_def cfg2_def g_one_def g_two_def fresh_section_def
      Let_def same_section_def)

lemma register_io_g_two:
  "narwhalyzer_register_section cfg2 now ''io'' (Some ''f.c'') 20 g_two = (1, [], g_two)"
  by code_simp

theorem register_idempotent_injective_witness:
  "wf_world cfg2 (initial_world cfg2)
   \<and> fst (api_step cfg2 (initial_world cfg2) (Register ''compute'' (Some ''f.c'') 10 100)) = Some 0
   \<and> fst (api_step cfg2
        (api_run cfg2 (snd (api_step cfg2 (initial_world cfg2) (Register ''compute'' (Some ''f.c'') 10 100)))
           [Register ''io'' (Some ''f.c'') 20 150])
        (Register ''compute'' (Some ''f.c'') 10 400)) = Some 0
   \<and> fst (api_step cfg2
        (api_run cfg2 (snd (api_step cfg2 (initial_world cfg2) (Register ''compute'' (Some ''f.c'') 10 100)))
           [Register ''io'' (Some ''f.c'') 20 150])
        (Register ''io'' (Some ''f.c'') 20 400)) = Some 1"
proof -
  let ?w1 = "snd (api_step cfg2 (initial_world cfg2) (Register ''compute'' (Some ''f.c'') 10 100))"
  let ?w = "api_run cfg2 ?w1 [Register ''io'' (Some ''f.c'') 20 150]"
  have wf: "wf_world cfg2 (initial_world cfg2)"
    by (rule initial_world_wf) (simp_all add: cfg2_def)
  have g0: "glob (initial_world cfg2) = initial_globals cfg2" by (simp add: initial_world_def)
  have f1: "fst (api_step cfg2 (initial_world cfg2) (Register ''compute'' (Some ''f.c'') 10 100)) = Some 0"
    by (simp del: api_step.simps add: api_step_Register_fst g0 register_compute_initial)
  have g1: "glob ?w1 = g_one"
    by (simp del: api_step.simps add: api_step_Register_glob g0 register_compute_initial)
  have g: "glob ?w = g_two"
    by (simp del: api_step.simps add: api_step_Register_glob g0 register_compute_initial register_io_g_one)
  have f2: "fst (api_step cfg2 ?w (Register ''io'' (Some ''f.c'') 20 400)) = Some 1"
    using g by (simp del: api_step.simps add: api_step_Register_fst register_io_g_two)
  have e1: "api_step cfg2 (initial_world cfg2) (Register ''compute'' (Some ''f.c'') 10 100) = (Some 0, ?w1)"
    using f1 by (simp add: prod_eq_iff)
  obtain r w2 where e2: "api_step cfg2 ?w (Register ''compute'' (Some ''f.c'') 10 400) = (Some r, w2)"
    by (cases "api_step cfg2 ?w (Register ''compute'' (Some ''f.c'') 10 400)") (auto split: prod.splits)
  have e3: "api_step cfg2 ?w (Register ''io'' (Some ''f.c'') 20 400)
      = (Some 1, snd (api_step cfg2 ?w (Register ''io'' (Some ''f.c'') 20 400)))"
    using f2 by (simp add: prod_eq_iff)
  from register_idempotent_injective [OF wf e1 e2] have "r = 0" by simp
  with e2 have f3: "fst (api_step cfg2 ?w (Register ''compute'' (Some ''f.c'') 10 400)) = Some 0" by simp
  from register_idempotent_injective [OF wf e1 e3] wf f1 f2 f3 show ?thesis by simp
qed

text \<open>
  C2 as stated fails for a null file: in a fresh process, registering
  \<^verbatim>\<open>("anon", NULL, 7)\<close> twice returns 0 and then 1.
\<close>

theorem register_null_file_not_idempotent:
  "fst (narwhalyzer_register_section cfg2 100 ''anon'' None 7 (initial_globals cfg2)) = 0
   \<and> fst (narwhalyzer_register_section cfg2 200 ''anon'' None 7
        (snd (snd (narwhalyzer_register_section cfg2 100 ''anon'' None 7 (initial_globals cfg2))))) = 1"
  by (simp add: initial_globals_def cfg2_def narwhalyzer_register_section_def
      narwhalyzer_init_def Let_def same_section_def numeral_2_eq_2)

section \<open>The flat summary\<close>




lemma compare_le_0:
  "compare_sections_by_time g a b \<le> 0 \<longleftrightarrow>
     cumulative_time_ns (g_sections g ! nat b) \<le> cumulative_time_ns (g_sections g ! nat a)"
  by (auto simp: compare_sections_by_time_def Let_def)


lemma compare_eq_0:
  "compare_sections_by_time g a b = 0 \<longleftrightarrow>
     cumulative_time_ns (g_sections g ! nat a) = cumulative_time_ns (g_sections g ! nat b)"
  by (auto simp: compare_sections_by_time_def Let_def)


text \<open>
  The insertion sort meets the contract of \<^verbatim>\<open>qsort\<close> and keeps tied indices in input order,
  for every table of sections and every array of indices.
\<close>

lemma mset_insort_cmp: "mset (insort_cmp cmp x ys) = add_mset x (mset ys)"
  by (induction ys) simp_all

lemma set_insort_cmp: "set (insort_cmp cmp x ys) = insert x (set ys)"
  by (induction ys) auto

lemma sorted_insort_cmp:
  assumes "sorted_wrt (\<lambda>a b. compare_sections_by_time g a b \<le> 0) ys"
  shows "sorted_wrt (\<lambda>a b. compare_sections_by_time g a b \<le> 0) (insort_cmp (compare_sections_by_time g) x ys)"
  using assms
proof (induction ys)
  case Nil
  then show ?case by simp
next
  case (Cons y ys)
  show ?case
  proof (cases "compare_sections_by_time g x y \<le> 0")
    case True
    then have "\<forall>z \<in> set ys. compare_sections_by_time g x z \<le> 0"
      using Cons.prems by (auto simp: compare_le_0)
    then show ?thesis using True Cons.prems by simp
  next
    case False
    then have "compare_sections_by_time g y x \<le> 0" by (auto simp: compare_le_0)
    then show ?thesis using False Cons by (simp add: set_insort_cmp)
  qed
qed

lemma filter_insort_cmp:
  "filter (\<lambda>z. compare_sections_by_time g a z = 0) (insort_cmp (compare_sections_by_time g) x ys)
     = filter (\<lambda>z. compare_sections_by_time g a z = 0) (x # ys)"
proof (induction ys)
  case Nil
  then show ?case by simp
next
  case (Cons y ys)
  show ?case
  proof (cases "compare_sections_by_time g x y \<le> 0")
    case True
    then show ?thesis by simp
  next
    case False
    then have "\<not> (compare_sections_by_time g a x = 0 \<and> compare_sections_by_time g a y = 0)"
      by (auto simp: compare_le_0 compare_eq_0)
    then show ?thesis using False Cons.IH by auto
  qed
qed

lemma qsort_insertion_contract:
  "qsort_contract qsort_insertion (compare_sections_by_time g) xs"
proof -
  have "mset (qsort_insertion (compare_sections_by_time g) xs) = mset xs"
    by (induction xs) (simp_all add: qsort_insertion_def mset_insort_cmp)
  moreover have "sorted_wrt (\<lambda>a b. compare_sections_by_time g a b \<le> 0)
      (qsort_insertion (compare_sections_by_time g) xs)"
    by (induction xs) (simp_all add: qsort_insertion_def sorted_insort_cmp)
  ultimately show ?thesis by (simp add: qsort_contract_def)
qed

lemma qsort_insertion_stable:
  "qsort_stable qsort_insertion (compare_sections_by_time g) xs"
proof -
  have "filter (\<lambda>z. compare_sections_by_time g a z = 0) (qsort_insertion (compare_sections_by_time g) xs)
      = filter (\<lambda>z. compare_sections_by_time g a z = 0) xs" for a
  proof (induction xs)
    case Nil
    then show ?case by (simp add: qsort_insertion_def)
  next
    case (Cons x xs)
    have "qsort_insertion (compare_sections_by_time g) (x # xs)
        = insort_cmp (compare_sections_by_time g) x (qsort_insertion (compare_sections_by_time g) xs)"
      by (simp add: qsort_insertion_def)
    then show ?case using Cons.IH by (simp only: filter_insort_cmp) simp
  qed
  then show ?thesis by (simp add: qsort_stable_def list_all_iff)
qed



section \<open>The hierarchy and the report as a whole\<close>

lemma those_map_Some: "those xs = Some ys \<longleftrightarrow> xs = map Some ys"
proof (induction xs arbitrary: ys)
  case Nil
  then show ?case by auto
next
  case (Cons x xs)
  show ?case
  proof (cases x)
    case None
    then show ?thesis by auto
  next
    case (Some a)
    have "those (x # xs) = Some ys \<longleftrightarrow> (\<exists>zs. those xs = Some zs \<and> ys = a # zs)"
      using Some by auto
    also have "\<dots> \<longleftrightarrow> (\<exists>zs. xs = map Some zs \<and> ys = a # zs)"
      using Cons.IH by simp
    also have "\<dots> \<longleftrightarrow> x # xs = map Some ys"
      using Some by (cases ys) auto
    finally show ?thesis .
  qed
qed

lemma those_None: "those xs = None \<longleftrightarrow> None \<in> set xs"
proof (induction xs)
  case Nil
  then show ?case by simp
next
  case (Cons x xs)
  then show ?case by (cases x) (auto simp: map_option_case split: option.splits)
qed

lemma those_all_empty:
  "(\<And>x. x \<in> set xs \<Longrightarrow> f x = Some []) \<Longrightarrow> map_option concat (those (map f xs)) = Some []"
proof (induction xs)
  case Nil
  then show ?case by simp
next
  case (Cons x xs)
  then have "map_option concat (those (map f xs)) = Some []" by simp
  then obtain ys where "those (map f xs) = Some ys" "concat ys = []" by auto
  then show ?case using Cons.prems [of x] by simp
qed

text \<open>
  A child with a smaller index than its parent is filed under the parent and then lost
  when the loop reaches the parent and resets its node: the view shows the parent alone.
\<close>

lemma hierarchy_child_registered_first:
  "parent_index (g_sections (glob (api_run cfg2 (initial_world cfg2) calls_child_first)) ! 0) = 1
   \<and> build_hierarchy (glob (api_run cfg2 (initial_world cfg2) calls_child_first)) 2 = ([[], []], [1])
   \<and> print_hierarchy_view 2 (glob (api_run cfg2 (initial_world cfg2) calls_child_first)) 2
        = Some [HierarchyHeading, HierarchyRoot 1, HierarchyBlank]"
  by code_simp

lemma build_fold_inv:
  assumes "set js \<subseteq> {..< nat sc}" and "length nodes = nat sc"
    and "\<forall>r \<in> set roots. \<exists>i < nat sc. r = int i \<and> parent_index (g_sections g ! i) < 0"
    and "\<forall>p < nat sc. \<forall>c \<in> set (nodes ! p). \<exists>i < nat sc. c = int i \<and> parent_index (g_sections g ! i) = int p"
  shows "length (fst (fold (build_step g sc) js (nodes, roots))) = nat sc
       \<and> (\<forall>r \<in> set (snd (fold (build_step g sc) js (nodes, roots))).
             \<exists>i < nat sc. r = int i \<and> parent_index (g_sections g ! i) < 0)
       \<and> (\<forall>p < nat sc. \<forall>c \<in> set (fst (fold (build_step g sc) js (nodes, roots)) ! p).
             \<exists>i < nat sc. c = int i \<and> parent_index (g_sections g ! i) = int p)"
  using assms
proof (induction js arbitrary: nodes roots)
  case Nil
  then show ?case by simp
next
  case (Cons j js)
  let ?par = "parent_index (g_sections g ! j)"
  have j: "j < nat sc" using Cons.prems(1) by simp
  obtain nodes' roots' where st: "build_step g sc j (nodes, roots) = (nodes', roots')"
    by (cases "build_step g sc j (nodes, roots)") auto
  have len: "length nodes' = nat sc"
    using st Cons.prems(2) by (auto simp: build_step_def Let_def split: if_splits)
  have roots: "\<forall>r \<in> set roots'. \<exists>i < nat sc. r = int i \<and> parent_index (g_sections g ! i) < 0"
    using st Cons.prems(3) j by (auto simp: build_step_def Let_def split: if_splits)
  have nodes: "\<forall>p < nat sc. \<forall>c \<in> set (nodes' ! p). \<exists>i < nat sc. c = int i \<and> parent_index (g_sections g ! i) = int p"
  proof (intro allI impI ballI)
    fix p c assume p: "p < nat sc" and c: "c \<in> set (nodes' ! p)"
    show "\<exists>i < nat sc. c = int i \<and> parent_index (g_sections g ! i) = int p"
    proof (cases "0 \<le> ?par \<and> ?par < sc \<and> nat ?par = p")
      case True
      then have "nodes' = (nodes[j := []])[p := (nodes[j := []]) ! p @ [int j]]"
        using st by (auto simp: build_step_def Let_def)
      then have "c \<in> set ((nodes[j := []]) ! p) \<or> c = int j"
        using c p Cons.prems(2) by auto
      moreover have "set ((nodes[j := []]) ! p) \<subseteq> set (nodes ! p)"
        by (cases "p = j") (use p Cons.prems(2) in auto)
      ultimately have "c \<in> set (nodes ! p) \<or> c = int j" by blast
      then show ?thesis
        using Cons.prems(4) p j True by auto
    next
      case False
      then have "nodes' ! p = (nodes[j := []]) ! p"
        using st by (auto simp: build_step_def Let_def split: if_splits)
      moreover have "set ((nodes[j := []]) ! p) \<subseteq> set (nodes ! p)"
        by (cases "p = j") (use p Cons.prems(2) in auto)
      ultimately have "c \<in> set (nodes ! p)" using c by auto
      then show ?thesis using Cons.prems(4) p by auto
    qed
  qed
  have "set js \<subseteq> {..< nat sc}" using Cons.prems(1) by simp
  from Cons.IH [OF this len roots nodes] show ?case by (simp add: st)
qed

lemma build_hierarchy_inv:
  "length (fst (build_hierarchy g sc)) = nat sc
   \<and> (\<forall>r \<in> set (snd (build_hierarchy g sc)).
         \<exists>i < nat sc. r = int i \<and> parent_index (g_sections g ! i) < 0)
   \<and> (\<forall>p < nat sc. \<forall>c \<in> set (fst (build_hierarchy g sc) ! p).
         \<exists>i < nat sc. c = int i \<and> parent_index (g_sections g ! i) = int p)"
  unfolding build_hierarchy_def
  by (rule build_fold_inv) auto

lemma build_hierarchy_length: "length (fst (build_hierarchy g sc)) = nat sc"
  using build_hierarchy_inv [of g sc] by (rule conjunct1)

lemma build_hierarchy_roots:
  assumes "r \<in> set (snd (build_hierarchy g sc))"
  shows "\<exists>i < nat sc. r = int i \<and> parent_index (g_sections g ! i) < 0"
proof -
  have "\<forall>r \<in> set (snd (build_hierarchy g sc)).
         \<exists>i < nat sc. r = int i \<and> parent_index (g_sections g ! i) < 0"
    using build_hierarchy_inv [of g sc] by (elim conjE)
  then show ?thesis using assms by (rule bspec)
qed

lemma build_hierarchy_children:
  assumes "p < nat sc" and "c \<in> set (fst (build_hierarchy g sc) ! p)"
  shows "\<exists>i < nat sc. c = int i \<and> parent_index (g_sections g ! i) = int p"
proof -
  have "\<forall>p < nat sc. \<forall>c \<in> set (fst (build_hierarchy g sc) ! p).
         \<exists>i < nat sc. c = int i \<and> parent_index (g_sections g ! i) = int p"
    using build_hierarchy_inv [of g sc] by (elim conjE)
  then show ?thesis using assms by simp
qed

lemma flat_rows_empty:
  assumes "\<And>x. x \<in> set xs \<Longrightarrow> entry_count (g_sections g ! nat x) = 0"
  shows "concat (map (flat_row g) xs) = []"
  using assms by (induction xs) (simp_all add: flat_row_def)

lemma details_empty:
  assumes "\<And>i. i \<in> set js \<Longrightarrow> entry_count (g_sections g ! i) = 0"
  shows "concat (map (details_entry g) js) = []"
  using assms by (induction js) (simp_all add: details_entry_def)

lemma hierarchy_empty:
  assumes "0 < sc" and "\<forall>i < nat sc. entry_count (g_sections g ! i) = 0"
  shows "print_hierarchy_view fuel g sc = Some [HierarchyHeading]"
proof -
  let ?nodes = "fst (build_hierarchy g sc)" and ?roots = "snd (build_hierarchy g sc)"
  have "print_root fuel g ?nodes r = Some []" if r: "r \<in> set ?roots" for r
  proof -
    obtain i where "i < nat sc" "r = int i"
      using build_hierarchy_roots [OF r] by auto
    then show ?thesis using assms(2) by (simp add: print_root_def)
  qed
  then have "map_option concat (those (map (print_root fuel g ?nodes) ?roots)) = Some []"
    by (rule those_all_empty)
  then obtain ys where "those (map (print_root fuel g ?nodes) ?roots) = Some ys" "concat ys = []"
    by auto
  then show ?thesis using assms(1) by (simp add: print_hierarchy_view_def Let_def)
qed

text \<open>
  C5 (amended). Let sections be registered and none of them have a non-zero entry count
  when \<^verbatim>\<open>__narwhalyzer_fini\<close> prints the report. Then the report is the banner, the total
  time, the number of sections, the flat summary heading and an empty table, then the
  heading of the hierarchical view without a tree, the heading of the section details
  without an entry, and the end line: no row, tree or location entry of any section, and
  no line saying that no section was executed.
\<close>

theorem report_without_entries:
  assumes "g_report_printed g = 0" and "0 < g_section_count g"
    and "qsort_contract qsort (compare_sections_by_time (g\<lparr>g_report_printed := 1, g_program_end_time_ns := now\<rparr>))
           (map int [0 ..< nat (g_section_count g)])"
    and "\<forall>i < nat (g_section_count g). entry_count (g_sections g ! i) = 0"
  shows "fst (narwhalyzer_fini fuel qsort now g) =
           Some [ReportBanner, TotalProgramTime (now - g_program_start_time_ns g),
                 SectionsInstrumented (g_section_count g), FlatSummaryHeading, TableHeader, TableEnd,
                 HierarchyHeading, DetailsHeading, EndOfReport]"
proof -
  have pos: "0 < g_section_count g" by (rule assms(2))
  let ?g = "g\<lparr>g_report_printed := 1, g_program_end_time_ns := now\<rparr>"
  let ?sc = "g_section_count g"
  let ?ys = "qsort (compare_sections_by_time ?g) (map int [0 ..< nat ?sc])"
  have zero: "\<forall>i < nat ?sc. entry_count (g_sections ?g ! i) = 0" using assms(4) by simp
  have "mset ?ys = mset (map int [0 ..< nat ?sc])"
    using assms(3) unfolding qsort_contract_def by (rule conjunct1)
  then have "set ?ys = set (map int [0 ..< nat ?sc])"
    by (rule mset_eq_setD)
  then have "entry_count (g_sections ?g ! nat x) = 0" if "x \<in> set ?ys" for x
    using that zero by auto
  then have rows: "concat (map (flat_row ?g) ?ys) = []" by (rule flat_rows_empty)
  have det: "concat (map (details_entry ?g) [0 ..< nat ?sc]) = []"
    by (rule details_empty) (use zero in simp)
  have hier: "print_hierarchy_view fuel ?g ?sc = Some [HierarchyHeading]"
    using pos zero by (rule hierarchy_empty)
  have fini: "fst (narwhalyzer_fini fuel qsort now g) =
      map_option (\<lambda>h. print_flat_summary qsort ?g ?sc (now - g_program_start_time_ns g)
                        @ h @ print_section_details ?g ?sc @ [EndOfReport])
        (print_hierarchy_view fuel ?g ?sc)"
    using assms(1) pos by (simp add: narwhalyzer_fini_def Let_def)
  have flat: "print_flat_summary qsort ?g ?sc (now - g_program_start_time_ns g) =
      [ReportBanner, TotalProgramTime (now - g_program_start_time_ns g),
       SectionsInstrumented ?sc, FlatSummaryHeading, TableHeader, TableEnd]"
    unfolding print_flat_summary_def Let_def rows using pos by simp
  have details: "print_section_details ?g ?sc = [DetailsHeading]"
    unfolding print_section_details_def det by simp
  show "fst (narwhalyzer_fini fuel qsort now g) =
      Some [ReportBanner, TotalProgramTime (now - g_program_start_time_ns g),
            SectionsInstrumented ?sc, FlatSummaryHeading, TableHeader, TableEnd,
            HierarchyHeading, DetailsHeading, EndOfReport]"
    unfolding fini hier flat details by simp
qed

theorem report_without_entries_witness:
  "g_report_printed g_two = 0 \<and> 0 < g_section_count g_two
   \<and> qsort_contract qsort_quick
        (compare_sections_by_time (g_two\<lparr>g_report_printed := 1, g_program_end_time_ns := 1000\<rparr>))
        (map int [0 ..< nat (g_section_count g_two)])
   \<and> entry_count (g_sections g_two ! 0) = 0 \<and> entry_count (g_sections g_two ! 1) = 0
   \<and> fst (narwhalyzer_fini 0 qsort_quick 1000 g_two) =
        Some [ReportBanner, TotalProgramTime 900, SectionsInstrumented 2, FlatSummaryHeading,
              TableHeader, TableEnd, HierarchyHeading, DetailsHeading, EndOfReport]"
proof -
  have a: "g_report_printed g_two = 0" "0 < g_section_count g_two"
    "g_section_count g_two = 2" "g_program_start_time_ns g_two = 100"
    by (simp_all add: g_two_def)
  have b: "qsort_contract qsort_quick
        (compare_sections_by_time (g_two\<lparr>g_report_printed := 1, g_program_end_time_ns := 1000\<rparr>))
        (map int [0 ..< nat (g_section_count g_two)])"
    by code_simp
  have c: "\<forall>i < nat (g_section_count g_two). entry_count (g_sections g_two ! i) = 0"
    by (simp add: g_two_def fresh_section_def less_Suc_eq numeral_2_eq_2)
  have d: "entry_count (g_sections g_two ! 0) = 0" "entry_count (g_sections g_two ! 1) = 0"
    by (simp_all add: g_two_def fresh_section_def)
  from report_without_entries [OF a(1,2) b c, of 0]
  show ?thesis using a b d by simp
qed

text \<open>
  C5 as stated fails: with two sections registered and never entered the report has no
  line saying that no section was executed, and both the heading of the hierarchical
  view and the heading of the section details are printed.
\<close>

theorem report_registered_never_entered:
  "glob (api_run cfg2 (initial_world cfg2)
      [Register ''compute'' (Some ''f.c'') 10 100, Register ''io'' (Some ''f.c'') 20 100]) = g_two
   \<and> entry_count (g_sections g_two ! 0) = 0 \<and> entry_count (g_sections g_two ! 1) = 0
   \<and> fst (narwhalyzer_fini 0 qsort_quick 1000 g_two) =
        Some [ReportBanner, TotalProgramTime 900, SectionsInstrumented 2, FlatSummaryHeading,
              TableHeader, TableEnd, HierarchyHeading, DetailsHeading, EndOfReport]"
  by code_simp

section \<open>Sections that were never entered\<close>

lemma those_map_upt:
  assumes "those (map F [0 ..< k]) = Some sub"
  shows "length sub = k" and "j < k \<Longrightarrow> F j = Some (sub ! j)"
proof -
  from assms have m: "map F [0 ..< k] = map Some sub" by (simp add: those_map_Some)
  from arg_cong [OF m, of length] show len: "length sub = k" by simp
  assume j: "j < k"
  from arg_cong [OF m, of "\<lambda>xs. xs ! j"] j len show "F j = Some (sub ! j)" by simp
qed

lemma in_concat_nth:
  assumes "l \<in> set (concat sub)"
  obtains j where "j < length sub" and "l \<in> set (sub ! j)"
proof -
  from assms obtain ys where ys: "ys \<in> set sub" "l \<in> set ys" by auto
  from ys(1) obtain j where "j < length sub" "sub ! j = ys" by (auto simp: in_set_conv_nth)
  with ys(2) that show thesis by blast
qed

lemma print_rec_lines:
  assumes good: "\<And>p c. p < length nodes \<Longrightarrow> c \<in> set (nodes ! p) \<Longrightarrow> 0 \<le> c \<and> nat c < length nodes \<and> Q c"
  shows "0 \<le> idx \<Longrightarrow> nat idx < length nodes \<Longrightarrow> Q idx
     \<Longrightarrow> print_hierarchy_recursive fuel nodes idx pre lst = Some ls
     \<Longrightarrow> l \<in> set ls \<Longrightarrow> line_section l = Some i \<Longrightarrow> Q i"
proof (induction fuel arbitrary: idx pre lst ls l)
  case 0
  then show ?case by simp
next
  case (Suc fuel)
  let ?ch = "nodes ! nat idx"
  let ?F = "\<lambda>j. print_hierarchy_recursive fuel nodes (?ch ! j) (pre @ [lst]) (int j = int (length ?ch) - 1)"
  from Suc.prems(4) obtain sub where sub: "those (map ?F [0 ..< length ?ch]) = Some sub"
    and ls: "ls = HierarchyChild pre lst idx # concat sub"
    by (auto simp: Let_def)
  note len = those_map_upt(1) [OF sub] and nth = those_map_upt(2) [OF sub]
  from Suc.prems(5) ls consider "l = HierarchyChild pre lst idx" | "l \<in> set (concat sub)" by auto
  then show ?case
  proof cases
    case 1
    then show ?thesis using Suc.prems(3,6) by simp
  next
    case 2
    then obtain j where j: "j < length sub" "l \<in> set (sub ! j)" by (rule in_concat_nth)
    then have jc: "j < length ?ch" using len by simp
    have "?ch ! j \<in> set ?ch" using jc by simp
    from good [OF Suc.prems(2) this]
    have c: "0 \<le> ?ch ! j" "nat (?ch ! j) < length nodes" "Q (?ch ! j)" by simp_all
    show ?thesis
      by (rule Suc.IH [OF c nth [OF jc] j(2) Suc.prems(6)])
  qed
qed

lemma print_root_lines:
  assumes good: "\<And>p c. p < length nodes \<Longrightarrow> c \<in> set (nodes ! p) \<Longrightarrow>
      0 \<le> c \<and> nat c < length nodes \<and> entry_count (g_sections g ! nat c) \<noteq> 0"
    and "0 \<le> idx" and "nat idx < length nodes"
    and "print_root fuel g nodes idx = Some ls" and "l \<in> set ls" and "line_section l = Some i"
  shows "entry_count (g_sections g ! nat i) \<noteq> 0"
proof (cases "entry_count (g_sections g ! nat idx) = 0")
  case True
  then show ?thesis using assms(4,5) by (simp add: print_root_def)
next
  case False
  let ?ch = "nodes ! nat idx"
  let ?F = "\<lambda>j. print_hierarchy_recursive fuel nodes (?ch ! j) [] (int j = int (length ?ch) - 1)"
  from assms(4) False obtain sub where sub: "those (map ?F [0 ..< length ?ch]) = Some sub"
    and ls: "ls = HierarchyRoot idx # concat sub @ [HierarchyBlank]"
    by (auto simp: print_root_def Let_def)
  note len = those_map_upt(1) [OF sub] and nth = those_map_upt(2) [OF sub]
  from assms(5) ls consider "l = HierarchyRoot idx" | "l \<in> set (concat sub)" | "l = HierarchyBlank" by auto
  then show ?thesis
  proof cases
    case 1
    then show ?thesis using False assms(6) by simp
  next
    case 2
    then obtain j where j: "j < length sub" "l \<in> set (sub ! j)" by (rule in_concat_nth)
    then have jc: "j < length ?ch" using len by simp
    have "?ch ! j \<in> set ?ch" using jc by simp
    from good [OF assms(3) this]
    have c: "0 \<le> ?ch ! j" "nat (?ch ! j) < length nodes" "entry_count (g_sections g ! nat (?ch ! j)) \<noteq> 0"
      by simp_all
    show ?thesis
      by (rule print_rec_lines [where Q = "\<lambda>i. entry_count (g_sections g ! nat i) \<noteq> 0",
            OF good c nth [OF jc] j(2) assms(6)])
  next
    case 3
    then show ?thesis using assms(6) by simp
  qed
qed

text \<open>
  A failed print at depth \<open>fuel\<close> below a node means a chain of \<open>fuel\<close> parent links that
  ends in the node.
\<close>

lemma print_rec_None_chain:
  assumes children: "\<And>p c. p < n \<Longrightarrow> c \<in> set (nodes ! p) \<Longrightarrow> \<exists>i < n. c = int i \<and> up i = int p"
  shows "i < n \<Longrightarrow> print_hierarchy_recursive fuel nodes (int i) pre lst = None
     \<Longrightarrow> \<exists>j < n. ((\<lambda>x. nat (up x)) ^^ fuel) j = i
           \<and> (\<forall>m < fuel. 0 \<le> up (((\<lambda>x. nat (up x)) ^^ m) j) \<and> ((\<lambda>x. nat (up x)) ^^ m) j < n)"
proof (induction fuel arbitrary: i pre lst)
  case 0
  then show ?case by auto
next
  case (Suc fuel)
  let ?f = "\<lambda>x. nat (up x)"
  let ?ch = "nodes ! i"
  let ?F = "\<lambda>j. print_hierarchy_recursive fuel nodes (?ch ! j) (pre @ [lst]) (int j = int (length ?ch) - 1)"
  from Suc.prems(2) have "those (map ?F [0 ..< length ?ch]) = None"
    by (auto simp: Let_def)
  then obtain j0 where j0: "j0 < length ?ch" "?F j0 = None"
    by (auto simp: those_None)
  have "?ch ! j0 \<in> set ?ch" using j0(1) by simp
  from children [OF Suc.prems(1) this] obtain i' where i': "i' < n" "?ch ! j0 = int i'" "up i' = int i"
    by auto
  from Suc.IH [OF i'(1), of "pre @ [lst]" "int j0 = int (length ?ch) - 1"] j0(2) i'(2)
  obtain j where j: "j < n" "(?f ^^ fuel) j = i'"
    "\<forall>m < fuel. 0 \<le> up ((?f ^^ m) j) \<and> (?f ^^ m) j < n"
    by auto
  have "(?f ^^ Suc fuel) j = i" using j(2) i'(3) by simp
  moreover have "\<forall>m < Suc fuel. 0 \<le> up ((?f ^^ m) j) \<and> (?f ^^ m) j < n"
    using j(2,3) i'(1,3) by (auto simp: less_Suc_eq)
  ultimately show ?case using j(1) by blast
qed

lemma chain_to_root_short:
  fixes up :: "nat \<Rightarrow> int"
  assumes below: "\<forall>m \<le> k. ((\<lambda>x. nat (up x)) ^^ m) j < n"
    and inner: "\<forall>m < k. 0 \<le> up (((\<lambda>x. nat (up x)) ^^ m) j)"
    and root: "up (((\<lambda>x. nat (up x)) ^^ k) j) < 0"
  shows "k < n"
proof -
  let ?f = "\<lambda>x. nat (up x)"
  have "inj_on (\<lambda>m. (?f ^^ m) j) {..k}"
  proof (rule linorder_inj_onI)
    fix a b assume ab: "a < b" "a \<in> {..k}" "b \<in> {..k}"
    show "(?f ^^ a) j \<noteq> (?f ^^ b) j"
    proof
      assume eq: "(?f ^^ a) j = (?f ^^ b) j"
      have "(?f ^^ (k - b + a)) j = (?f ^^ (k - b)) ((?f ^^ a) j)" by (simp add: funpow_add)
      also have "\<dots> = (?f ^^ (k - b)) ((?f ^^ b) j)" using eq by simp
      also have "\<dots> = (?f ^^ (k - b + b)) j" by (simp add: funpow_add)
      also have "\<dots> = (?f ^^ k) j" using ab by simp
      finally have "up ((?f ^^ (k - b + a)) j) < 0" using root by simp
      moreover have "k - b + a < k" using ab by auto
      ultimately show False using inner by (auto simp: not_le [symmetric])
    qed
  qed auto
  moreover have "(\<lambda>m. (?f ^^ m) j) ` {..k} \<subseteq> {..< n}" using below by auto
  ultimately have "card {..k} \<le> card {..< n}" by (rule card_inj_on_le) simp
  then show ?thesis by simp
qed

lemma print_root_total:
  assumes children: "\<And>p c. p < n \<Longrightarrow> c \<in> set (nodes ! p) \<Longrightarrow> \<exists>i < n. c = int i \<and> up i = int p"
    and "i0 < n" and "up i0 < 0" and "n \<le> Suc fuel"
  shows "print_root fuel g nodes (int i0) \<noteq> None"
proof
  assume none: "print_root fuel g nodes (int i0) = None"
  let ?f = "\<lambda>x. nat (up x)"
  let ?ch = "nodes ! i0"
  let ?F = "\<lambda>j. print_hierarchy_recursive fuel nodes (?ch ! j) [] (int j = int (length ?ch) - 1)"
  from none have "those (map ?F [0 ..< length ?ch]) = None"
    by (auto simp: print_root_def Let_def split: if_splits)
  then obtain j0 where j0: "j0 < length ?ch" "?F j0 = None"
    by (auto simp: those_None)
  have "?ch ! j0 \<in> set ?ch" using j0(1) by simp
  from children [OF assms(2) this] obtain i' where i': "i' < n" "?ch ! j0 = int i'" "up i' = int i0"
    by auto
  from print_rec_None_chain [where up = up, OF children i'(1), of nodes fuel "[]" "int j0 = int (length ?ch) - 1"]
    j0(2) i'(2)
  obtain j where j: "j < n" "(?f ^^ fuel) j = i'"
    "\<forall>m < fuel. 0 \<le> up ((?f ^^ m) j) \<and> (?f ^^ m) j < n"
    by auto
  have top: "(?f ^^ Suc fuel) j = i0" using j(2) i'(3) by simp
  have "\<forall>m \<le> Suc fuel. (?f ^^ m) j < n"
  proof (intro allI impI)
    fix m assume "m \<le> Suc fuel"
    then consider "m < fuel" | "m = fuel" | "m = Suc fuel" by linarith
    then show "(?f ^^ m) j < n"
    proof cases
      case 1 then show ?thesis using j(3) by simp
    next
      case 2 then show ?thesis using j(2) i'(1) by simp
    next
      case 3 then show ?thesis using top assms(2) by simp
    qed
  qed
  moreover have "\<forall>m < Suc fuel. 0 \<le> up ((?f ^^ m) j)"
    using j(2,3) i'(3) by (auto simp: less_Suc_eq)
  moreover have "up ((?f ^^ Suc fuel) j) < 0" using top assms(3) by simp
  ultimately have "Suc fuel < n" by (rule chain_to_root_short)
  then show False using assms(4) by simp
qed

lemma print_hierarchy_view_total:
  assumes "nat sc \<le> Suc fuel"
  shows "print_hierarchy_view fuel g sc \<noteq> None"
proof (cases "sc = 0")
  case True
  then show ?thesis by (simp add: print_hierarchy_view_def)
next
  case False
  let ?nodes = "fst (build_hierarchy g sc)" and ?roots = "snd (build_hierarchy g sc)"
  have "print_root fuel g ?nodes r \<noteq> None" if r: "r \<in> set ?roots" for r
  proof -
    from build_hierarchy_roots [OF r] obtain i0 where i0: "i0 < nat sc" "r = int i0"
      "parent_index (g_sections g ! i0) < 0" by auto
    show ?thesis
      unfolding i0(2)
      by (rule print_root_total [where up = "\<lambda>i. parent_index (g_sections g ! i)" and n = "nat sc"])
        (use build_hierarchy_children i0 assms in auto)
  qed
  then have "None \<notin> set (map (print_root fuel g ?nodes) ?roots)"
    by (auto simp: image_iff) (metis option.distinct(1))
  then have "those (map (print_root fuel g ?nodes) ?roots) \<noteq> None" by (simp add: those_None)
  then show ?thesis using False by (auto simp: print_hierarchy_view_def Let_def)
qed

lemma count_up_no_wrap:
  fixes x :: uint64_t
  assumes "unat x \<le> n" and "Suc n < 2 ^ 64"
  shows "unat (x + 1) \<le> Suc n \<and> x + 1 \<noteq> 0"
proof -
  have "unat x + unat (1 :: uint64_t) < 2 ^ LENGTH(64)" using assms by simp
  then have "unat (x + 1) = unat x + unat (1 :: uint64_t)" by (simp only: unat_add_lem)
  then have u: "unat (x + 1) = Suc (unat x)" by simp
  then have "x + 1 \<noteq> 0" by (metis Zero_not_Suc unat_0)
  then show ?thesis using u assms(1) by simp
qed

lemma enter_counters:
  assumes "narwhalyzer_section_enter cfg now idx (g, l) = (r, err, g', l')"
  shows "(entry_count (g_sections g' ! j) = entry_count (g_sections g ! j)
            \<and> parent_index (g_sections g' ! j) = parent_index (g_sections g ! j))
       \<or> entry_count (g_sections g' ! j) = entry_count (g_sections g ! j) + 1"
proof (cases "idx < 0 \<or> g_section_count g \<le> idx \<or> MAX_NESTING_DEPTH cfg \<le> g_context_stack_top l + 1")
  case True
  then have "g' = g"
    using assms(1) by (auto simp: narwhalyzer_section_enter_def Let_def split: if_splits)
  then show ?thesis by simp
next
  case False
  define pc where "pc = section_index ((g_context_stack l)[nat (g_context_stack_top l + 1) :=
       \<lparr>section_index = idx, start_time_ns = now,
        parent_context_index = (if g_context_stack_top l + 1 > 0 then g_context_stack_top l + 1 - 1 else - 1)\<rparr>]
       ! nat (g_context_stack_top l + 1 - 1))"
  define h where "h = (\<lambda>s :: narwhalyzer_section_stats.
       (if parent_index s = - 1 \<and> g_context_stack_top l + 1 > 0
        then s\<lparr>entry_count := entry_count s + 1, parent_index := pc\<rparr>
        else s\<lparr>entry_count := entry_count s + 1\<rparr>)\<lparr>depth := g_context_stack_top l + 1\<rparr>)"
  have g': "g_sections g' = (g_sections g)[nat idx := h (g_sections g ! nat idx)]"
    using assms(1) False by (auto simp: narwhalyzer_section_enter_def Let_def h_def pc_def)
  show ?thesis
  proof (cases "nat idx = j \<and> j < length (g_sections g)")
    case True
    then show ?thesis by (auto simp: g' h_def)
  next
    case False
    then have "(g_sections g)[nat idx := h (g_sections g ! nat idx)] ! j = g_sections g ! j"
      by (cases "nat idx < length (g_sections g)") (auto simp: list_update_beyond)
    then show ?thesis by (simp add: g')
  qed
qed

lemma register_new_slot:
  assumes "wf_globals cfg g" and "narwhalyzer_register_section cfg now nm fl ln g = (r, err, g')"
  shows "g_section_count g' = g_section_count g
       \<or> (g_section_count g' = g_section_count g + 1
          \<and> g_sections g' ! nat (g_section_count g) = fresh_section nm fl ln)"
proof (cases "lookup g nm fl ln")
  case (Some i)
  then show ?thesis using register_found [OF assms(1) Some, of now] assms(2) by simp
next
  case None
  have len: "length (g_sections (if g_initialized g = 0 then narwhalyzer_init now g else g)) = nat (MAX_SECTIONS cfg)"
    using assms(1) by (simp add: wf_globals_def narwhalyzer_init_def)
  show ?thesis
    using register_new [OF assms(1) None, of now] assms len
    by (auto simp: Let_def wf_globals_def split: if_splits)
qed

lemma entered_inv_step:
  assumes "wf_world cfg w" and "entered_inv n (glob w)" and "Suc n < 2 ^ 64"
  shows "entered_inv (Suc n) (glob (snd (api_step cfg w c)))"
proof -
  have old: "unat (entry_count (g_sections (glob w) ! i)) \<le> n"
      "parent_index (g_sections (glob w) ! i) \<noteq> - 1 \<Longrightarrow> entry_count (g_sections (glob w) ! i) \<noteq> 0"
    if "i < nat (g_section_count (glob w))" for i
    using assms(2) that by (auto simp: entered_inv_def)
  have wfg: "wf_globals cfg (glob w)" using assms(1) by (simp add: wf_world_def)
  show ?thesis
  proof (cases c)
    case (Init now)
    show ?thesis
    proof (cases "g_section_count (glob w) = 0")
      case True
      then show ?thesis using Init by (simp add: entered_inv_def)
    next
      case False
      then have "g_initialized (glob w) \<noteq> 0" using wfg by (auto simp: wf_globals_def)
      then show ?thesis using Init old by (auto simp: init_id entered_inv_def le_SucI)
    qed
  next
    case (Register nm fl ln now)
    obtain r err g' where e: "narwhalyzer_register_section cfg now nm fl ln (glob w) = (r, err, g')"
      by (cases "narwhalyzer_register_section cfg now nm fl ln (glob w)") auto
    have keep: "g_sections g' ! i = g_sections (glob w) ! i" if "i < nat (g_section_count (glob w))" for i
      using register_keeps_sections [OF wfg e that] .
    have "unat (entry_count (g_sections g' ! i)) \<le> Suc n
        \<and> (parent_index (g_sections g' ! i) \<noteq> - 1 \<longrightarrow> entry_count (g_sections g' ! i) \<noteq> 0)"
      if i: "i < nat (g_section_count g')" for i
    proof (cases "i < nat (g_section_count (glob w))")
      case True
      then show ?thesis using keep old by (auto simp: le_SucI)
    next
      case False
      then have "g_section_count g' = g_section_count (glob w) + 1
          \<and> g_sections g' ! nat (g_section_count (glob w)) = fresh_section nm fl ln"
        using register_new_slot [OF wfg e] i by auto
      moreover from this have "i = nat (g_section_count (glob w))" using False i wfg
        by (auto simp: wf_globals_def)
      ultimately show ?thesis by (simp add: fresh_section_def)
    qed
    then show ?thesis using Register e by (simp add: entered_inv_def)
  next
    case (Enter t idx now)
    obtain r err g' l' where e: "narwhalyzer_section_enter cfg now idx (glob w, tls w t) = (r, err, g', l')"
      by (cases "narwhalyzer_section_enter cfg now idx (glob w, tls w t)") auto
    have cnt: "g_section_count g' = g_section_count (glob w)" using enter_count [OF e] by simp
    have "unat (entry_count (g_sections g' ! i)) \<le> Suc n
        \<and> (parent_index (g_sections g' ! i) \<noteq> - 1 \<longrightarrow> entry_count (g_sections g' ! i) \<noteq> 0)"
      if i: "i < nat (g_section_count (glob w))" for i
      using enter_counters [OF e, of i]
    proof
      assume "entry_count (g_sections g' ! i) = entry_count (g_sections (glob w) ! i)
            \<and> parent_index (g_sections g' ! i) = parent_index (g_sections (glob w) ! i)"
      then show ?thesis using old [OF i] by (auto simp: le_SucI)
    next
      assume "entry_count (g_sections g' ! i) = entry_count (g_sections (glob w) ! i) + 1"
      then show ?thesis using count_up_no_wrap [OF old(1) [OF i] assms(3)] by simp
    qed
    then show ?thesis using Enter e cnt by (simp add: entered_inv_def)
  next
    case (Exit t ctx now)
    obtain g' l' where e: "narwhalyzer_section_exit now ctx (glob w, tls w t) = (g', l')"
      by (cases "narwhalyzer_section_exit now ctx (glob w, tls w t)") auto
    have cnt: "g_section_count g' = g_section_count (glob w)" using exit_count [OF e] by simp
    have "unat (entry_count (g_sections g' ! i)) \<le> Suc n
        \<and> (parent_index (g_sections g' ! i) \<noteq> - 1 \<longrightarrow> entry_count (g_sections g' ! i) \<noteq> 0)"
      if i: "i < nat (g_section_count (glob w))" for i
      using exit_keeps_fields [OF e, of i] old [OF i] by (auto simp: le_SucI)
    then show ?thesis using Exit e cnt by (simp add: entered_inv_def)
  qed
qed

lemma entered_inv_run:
  assumes "wf_world cfg w" and "entered_inv n (glob w)" and "n + length cs < 2 ^ 64"
  shows "entered_inv (n + length cs) (glob (api_run cfg w cs))"
  using assms
proof (induction cs arbitrary: w n)
  case Nil
  then show ?case by simp
next
  case (Cons c cs)
  have "Suc n < 2 ^ 64" using Cons.prems(3) by simp
  from entered_inv_step [OF Cons.prems(1,2) this, of c]
  have a: "entered_inv (Suc n) (glob (snd (api_step cfg w c)))" .
  have b: "wf_world cfg (snd (api_step cfg w c))"
    using api_step_wf [OF Cons.prems(1), of c] by simp
  have c: "Suc n + length cs < 2 ^ 64" using Cons.prems(3) by simp
  have "entered_inv (Suc n + length cs) (glob (api_run cfg (snd (api_step cfg w c)) cs))"
    by (rule Cons.IH [OF b a c])
  then show ?case by simp
qed

lemma flat_row_line:
  "l \<in> set (flat_row g idx) \<Longrightarrow> line_section l = Some i \<Longrightarrow> entry_count (g_sections g ! nat i) \<noteq> 0"
  by (auto simp: flat_row_def Let_def split: if_splits)

lemma details_entry_line:
  "l \<in> set (details_entry g j) \<Longrightarrow> line_section l = Some i \<Longrightarrow> entry_count (g_sections g ! nat i) \<noteq> 0"
  by (auto simp: details_entry_def Let_def split: if_splits)

lemma flat_summary_line:
  assumes "l \<in> set (print_flat_summary qsort g sc tt)" and "line_section l = Some i"
  shows "entry_count (g_sections g ! nat i) \<noteq> 0"
proof (cases "sc = 0")
  case True
  then show ?thesis using assms by (simp add: print_flat_summary_def)
next
  case False
  then have "l \<in> set [ReportBanner, TotalProgramTime tt, SectionsInstrumented sc, FlatSummaryHeading, TableHeader]
      \<or> (\<exists>idx. l \<in> set (flat_row g idx)) \<or> l = TableEnd"
    using assms(1) by (auto simp: print_flat_summary_def Let_def)
  then show ?thesis using assms(2) flat_row_line by auto
qed

lemma section_details_line:
  assumes "l \<in> set (print_section_details g sc)" and "line_section l = Some i"
  shows "entry_count (g_sections g ! nat i) \<noteq> 0"
proof -
  have "l = DetailsHeading \<or> (\<exists>j. l \<in> set (details_entry g j))"
    using assms(1) by (auto simp: print_section_details_def)
  then show ?thesis using assms(2) details_entry_line by auto
qed

lemma hierarchy_view_line:
  assumes inv: "entered_inv n g"
    and "print_hierarchy_view fuel g sc = Some h" and "sc = g_section_count g"
    and "l \<in> set h" and "line_section l = Some i"
  shows "entry_count (g_sections g ! nat i) \<noteq> 0"
proof (cases "sc = 0")
  case True
  then show ?thesis using assms(2,4) by (simp add: print_hierarchy_view_def)
next
  case False
  let ?nodes = "fst (build_hierarchy g sc)" and ?roots = "snd (build_hierarchy g sc)"
  have good: "0 \<le> c \<and> nat c < length ?nodes \<and> entry_count (g_sections g ! nat c) \<noteq> 0"
    if "p < length ?nodes" "c \<in> set (?nodes ! p)" for p c
  proof -
    have p: "p < nat sc" using that(1) by (simp add: build_hierarchy_length)
    from build_hierarchy_children [OF p that(2)] obtain k where
      k: "k < nat sc" "c = int k" "parent_index (g_sections g ! k) = int p" by auto
    have "parent_index (g_sections g ! k) \<noteq> - 1" using k(3) by simp
    then have "entry_count (g_sections g ! k) \<noteq> 0"
      using inv k(1) assms(3) by (simp add: entered_inv_def)
    then show ?thesis using k by (simp add: build_hierarchy_length)
  qed
  from assms(2) False obtain trees where
    trees: "those (map (print_root fuel g ?nodes) ?roots) = Some trees" and h: "h = HierarchyHeading # concat trees"
    by (auto simp: print_hierarchy_view_def Let_def)
  from trees have m: "map (print_root fuel g ?nodes) ?roots = map Some trees" by (simp add: those_map_Some)
  from assms(4,5) h have "l \<in> set (concat trees)" by auto
  then obtain j where j: "j < length trees" "l \<in> set (trees ! j)" by (rule in_concat_nth)
  have lenr: "length ?roots = length trees" using arg_cong [OF m, of length] by simp
  have pr: "print_root fuel g ?nodes (?roots ! j) = Some (trees ! j)"
    using arg_cong [OF m, of "\<lambda>xs. xs ! j"] j(1) lenr by simp
  have "?roots ! j \<in> set ?roots" using j(1) lenr by simp
  from build_hierarchy_roots [OF this] obtain k where k: "k < nat sc" "?roots ! j = int k" by auto
  have r: "0 \<le> ?roots ! j" "nat (?roots ! j) < length ?nodes"
    using k by (simp_all add: build_hierarchy_length)
  show ?thesis
    by (rule print_root_lines [OF good r pr j(2) assms(5)])
qed

text \<open>
  C4. Take the globals that any sequence of fewer than \<open>2 ^ 64\<close> calls (init, register,
  enter, exit, on any threads) leaves behind in a fresh process. Then the finalizer
  prints its report (a recursion depth of the number of sections minus one suffices),
  and no line of it -- table row, root or descendant in the hierarchical view, or
  details entry -- is about a section whose entry count is 0. The recursive printing of
  children does not test the entry count; a child has one because a parent is only
  recorded by an enter, after the count has been incremented.
\<close>

theorem zero_entry_sections_excluded:
  assumes "0 < MAX_SECTIONS cfg" and "0 \<le> MAX_NESTING_DEPTH cfg"
    and "length cs < 2 ^ 64"
    and "g = glob (api_run cfg (initial_world cfg) cs)"
    and "nat (g_section_count g) \<le> Suc fuel"
  shows "\<exists>ls. fst (narwhalyzer_fini fuel qsort now g) = Some ls
       \<and> (\<forall>i. 0 \<le> i \<and> i < g_section_count g \<and> entry_count (g_sections g ! nat i) = 0
              \<longrightarrow> (\<forall>l \<in> set ls. line_section l \<noteq> Some i))"
proof -
  have wf0: "wf_world cfg (initial_world cfg)" using assms(1,2) by (rule initial_world_wf)
  have "entered_inv 0 (glob (initial_world cfg))"
    by (simp add: entered_inv_def initial_world_def initial_globals_def)
  from entered_inv_run [OF wf0 this, of cs] assms(3,4)
  have inv: "entered_inv (length cs) g" by simp
  let ?g = "g\<lparr>g_report_printed := 1, g_program_end_time_ns := now\<rparr>"
  let ?sc = "g_section_count g"
  have inv': "entered_inv (length cs) ?g" using inv by (simp add: entered_inv_def)
  show ?thesis
  proof (cases "g_report_printed g \<noteq> 0 \<or> ?sc = 0")
    case True
    then have "fst (narwhalyzer_fini fuel qsort now g) = Some []"
      by (auto simp: narwhalyzer_fini_def Let_def)
    then show ?thesis by simp
  next
    case False
    obtain h where h: "print_hierarchy_view fuel ?g ?sc = Some h"
      using print_hierarchy_view_total [OF assms(5), of ?g] by auto
    let ?ls = "print_flat_summary qsort ?g ?sc (now - g_program_start_time_ns g)
                  @ h @ print_section_details ?g ?sc @ [EndOfReport]"
    have fini: "fst (narwhalyzer_fini fuel qsort now g) = Some ?ls"
      using False h by (simp add: narwhalyzer_fini_def Let_def)
    have "entry_count (g_sections g ! nat i) \<noteq> 0" if "l \<in> set ?ls" "line_section l = Some i" for l i
    proof -
      from that(1) consider "l \<in> set (print_flat_summary qsort ?g ?sc (now - g_program_start_time_ns g))"
        | "l \<in> set h" | "l \<in> set (print_section_details ?g ?sc)" | "l = EndOfReport" by auto
      then have "entry_count (g_sections ?g ! nat i) \<noteq> 0"
      proof cases
        case 1 then show ?thesis using that(2) by (rule flat_summary_line)
      next
        case 2 
        show ?thesis by (rule hierarchy_view_line [OF inv' h _ 2 that(2)]) simp
      next
        case 3 then show ?thesis using that(2) by (rule section_details_line)
      next
        case 4 then show ?thesis using that(2) by simp
      qed
      then show ?thesis by simp
    qed
    then have "\<forall>i. 0 \<le> i \<and> i < ?sc \<and> entry_count (g_sections g ! nat i) = 0
              \<longrightarrow> (\<forall>l \<in> set ?ls. line_section l \<noteq> Some i)" by blast
    then show ?thesis using fini by blast
  qed
qed

theorem zero_entry_sections_excluded_witness:
  "0 < MAX_SECTIONS cfg3 \<and> 0 \<le> MAX_NESTING_DEPTH cfg3 \<and> length calls_nested < 2 ^ 64
   \<and> nat (g_section_count (glob (api_run cfg3 (initial_world cfg3) calls_nested))) \<le> Suc 2
   \<and> g_section_count (glob (api_run cfg3 (initial_world cfg3) calls_nested)) = 3
   \<and> entry_count (g_sections (glob (api_run cfg3 (initial_world cfg3) calls_nested)) ! nat 2) = 0
   \<and> fst (narwhalyzer_fini 2 qsort_quick 3000 (glob (api_run cfg3 (initial_world cfg3) calls_nested))) =
        Some [ReportBanner, TotalProgramTime 2900, SectionsInstrumented 3,
              FlatSummaryHeading, TableHeader, TableRow 0 1 1000 1000 1000 1000,
              TableRow 1 1 300 300 300 300, TableEnd, HierarchyHeading,
              HierarchyRoot 0, HierarchyChild [] True 1, HierarchyBlank,
              DetailsHeading, DetailsEntry 0 (Some ''f.c'') 10 1,
              DetailsEntry 1 (Some ''f.c'') 20 1, EndOfReport]
   \<and> list_all (\<lambda>l. line_section l \<noteq> Some 2)
        (the (fst (narwhalyzer_fini 2 qsort_quick 3000 (glob (api_run cfg3 (initial_world cfg3) calls_nested)))))"
proof -
  let ?g = "glob (api_run cfg3 (initial_world cfg3) calls_nested)"
  have a: "0 < MAX_SECTIONS cfg3" "0 \<le> MAX_NESTING_DEPTH cfg3" by (simp_all add: cfg3_def)
  have b: "length calls_nested < 2 ^ 64" by (simp add: calls_nested_def)
  have c: "g_section_count ?g = 3" by code_simp
  have d: "nat (g_section_count ?g) \<le> Suc 2" by (simp add: c)
  have e: "entry_count (g_sections ?g ! nat 2) = 0" by code_simp
  have f: "fst (narwhalyzer_fini 2 qsort_quick 3000 ?g) =
        Some [ReportBanner, TotalProgramTime 2900, SectionsInstrumented 3,
              FlatSummaryHeading, TableHeader, TableRow 0 1 1000 1000 1000 1000,
              TableRow 1 1 300 300 300 300, TableEnd, HierarchyHeading,
              HierarchyRoot 0, HierarchyChild [] True 1, HierarchyBlank,
              DetailsHeading, DetailsEntry 0 (Some ''f.c'') 10 1,
              DetailsEntry 1 (Some ''f.c'') 20 1, EndOfReport]"
    by code_simp
  from zero_entry_sections_excluded [OF a b refl d, of qsort_quick 3000]
  obtain ls where ls: "fst (narwhalyzer_fini 2 qsort_quick 3000 ?g) = Some ls"
    and ex: "\<forall>i. 0 \<le> i \<and> i < g_section_count ?g \<and> entry_count (g_sections ?g ! nat i) = 0
              \<longrightarrow> (\<forall>l \<in> set ls. line_section l \<noteq> Some i)"
    by blast
  from ex [rule_format, of 2] c e have "\<forall>l \<in> set ls. line_section l \<noteq> Some 2" by simp
  then have "list_all (\<lambda>l. line_section l \<noteq> Some 2) (the (fst (narwhalyzer_fini 2 qsort_quick 3000 ?g)))"
    using ls by (simp add: list_all_iff)
  then show ?thesis using a b c d e f by simp
qed

section \<open>Statistics of balanced sequences\<close>

lemma thread_rel_depth:
  "thread_rel t stack tp held pend
     \<Longrightarrow> int (length (filter (\<lambda>p. fst p = t \<and> snd (snd (snd p))) pend)) = tp + 1"
  by (induction t stack tp held pend rule: thread_rel.induct) (auto split: if_splits)

lemma thread_rel_stack_cong:
  "thread_rel t stack tp held pend
     \<Longrightarrow> (\<And>k. 0 \<le> k \<Longrightarrow> k \<le> tp \<Longrightarrow> stack' ! nat k = stack ! nat k)
     \<Longrightarrow> thread_rel t stack' tp held pend"
  by (induction t stack tp held pend rule: thread_rel.induct) (auto split: if_splits)

lemma thread_rel_take_same:
  "thread_rel t stack tp held pend \<Longrightarrow> take_first t held = Some (c, held')
     \<Longrightarrow> \<exists>idx t0 m pend'. take_first t pend = Some ((idx, t0, m), pend')
           \<and> (if m then c = tp \<and> 0 \<le> c \<and> section_index (stack ! nat c) = idx
                         \<and> start_time_ns (stack ! nat c) = t0 \<and> thread_rel t stack (tp - 1) held' pend'
               else c = - 1 \<and> thread_rel t stack tp held' pend')"
proof (induction t stack tp held pend arbitrary: held' rule: thread_rel.induct)
  case (2 t stack tp u c0 hs u' idx t0 m ps)
  show ?case
  proof (cases "u = t")
    case True
    then show ?thesis using "2.prems" by (auto split: if_splits)
  next
    case False
    from "2.prems"(2) False obtain hs' where hs': "take_first t hs = Some (c, hs')" "held' = (u, c0) # hs'"
      by auto
    have rel: "thread_rel t stack tp hs ps" and uu: "u = u'" using "2.prems"(1) False by auto
    from "2.IH"(3) [OF False rel hs'(1)] obtain idx' t0' m' ps' where
      ps': "take_first t ps = Some ((idx', t0', m'), ps')"
      and r: "if m' then c = tp \<and> 0 \<le> c \<and> section_index (stack ! nat c) = idx'
                         \<and> start_time_ns (stack ! nat c) = t0' \<and> thread_rel t stack (tp - 1) hs' ps'
               else c = - 1 \<and> thread_rel t stack tp hs' ps'"
      by blast
    have "take_first t ((u', (idx, t0, m)) # ps) = Some ((idx', t0', m'), (u', (idx, t0, m)) # ps')"
      using ps' False uu by simp
    moreover have "if m' then c = tp \<and> 0 \<le> c \<and> section_index (stack ! nat c) = idx'
                         \<and> start_time_ns (stack ! nat c) = t0'
                         \<and> thread_rel t stack (tp - 1) held' ((u', (idx, t0, m)) # ps')
               else c = - 1 \<and> thread_rel t stack tp held' ((u', (idx, t0, m)) # ps')"
      using r hs'(2) False uu by (auto split: if_splits)
    ultimately show ?thesis by blast
  qed
qed simp_all

lemma thread_rel_take_other:
  "thread_rel u stack tp held pend \<Longrightarrow> u \<noteq> t \<Longrightarrow> take_first t held = Some (c, held')
     \<Longrightarrow> take_first t pend = Some (p, pend') \<Longrightarrow> thread_rel u stack tp held' pend'"
proof (induction u stack tp held pend arbitrary: held' pend' rule: thread_rel.induct)
  case (2 u stack tp v c0 hs v' idx t0 m ps)
  have vv: "v = v'" using "2.prems"(1) by simp
  show ?case
  proof (cases "v = t")
    case True
    then have "held' = hs" "pend' = ps" "v \<noteq> u" using "2.prems" vv by auto
    then show ?thesis using "2.prems"(1) by auto
  next
    case False
    from "2.prems"(3) False obtain hs' where hs': "take_first t hs = Some (c, hs')" "held' = (v, c0) # hs'"
      by auto
    from "2.prems"(4) False vv obtain ps' where ps': "take_first t ps = Some (p, ps')"
      "pend' = (v', (idx, t0, m)) # ps'"
      by auto
    show ?thesis
    proof (cases "v = u")
      case vu: True
      show ?thesis
      proof (cases m)
        case mm: True
        have r: "thread_rel u stack (tp - 1) hs ps" and c: "c0 = tp" "0 \<le> c0"
          "section_index (stack ! nat c0) = idx" "start_time_ns (stack ! nat c0) = t0"
          using "2.prems"(1) vu mm vv by auto
        from "2.IH"(1) [OF vu mm r "2.prems"(2) hs'(1) ps'(1)]
        have "thread_rel u stack (tp - 1) hs' ps'" .
        then show ?thesis unfolding hs'(2) ps'(2) using vu vv mm c by simp
      next
        case mm: False
        have r: "thread_rel u stack tp hs ps" and c: "c0 = - 1"
          using "2.prems"(1) vu mm vv by auto
        from "2.IH"(2) [OF vu mm r "2.prems"(2) hs'(1) ps'(1)]
        have "thread_rel u stack tp hs' ps'" .
        then show ?thesis unfolding hs'(2) ps'(2) using vu vv mm c by simp
      qed
    next
      case vu: False
      have "thread_rel u stack tp hs ps" using "2.prems"(1) vu vv by simp
      from "2.IH"(3) [OF vu this "2.prems"(2) hs'(1) ps'(1)]
      have "thread_rel u stack tp hs' ps'" .
      then show ?thesis unfolding hs'(2) ps'(2) using vu vv by simp
    qed
  qed
qed simp_all

lemma in_flight_take:
  "take_first t pend = Some ((idx, t0, m), pend')
     \<Longrightarrow> in_flight s pend = in_flight s pend' + (if m \<and> idx = s then 1 else 0)"
proof (induction pend arbitrary: pend')
  case Nil
  then show ?case by simp
next
  case (Cons p ps)
  obtain u x where p: "p = (u, x)" by (cases p)
  show ?case
  proof (cases "u = t")
    case True
    then show ?thesis using Cons.prems p by (auto simp: in_flight_def)
  next
    case False
    from Cons.prems p False obtain ps' where ps': "take_first t ps = Some ((idx, t0, m), ps')"
      "pend' = (u, x) # ps'" by auto
    from Cons.IH [OF ps'(1)] show ?thesis using p ps'(2) by (simp add: in_flight_def)
  qed
qed

lemma take_first_set:
  "take_first t xs = Some (x, xs') \<Longrightarrow> set xs' \<subseteq> set xs \<and> (t, x) \<in> set xs"
proof (induction xs arbitrary: xs')
  case Nil
  then show ?case by simp
next
  case (Cons p ps)
  obtain u y where p: "p = (u, y)" by (cases p)
  show ?case
  proof (cases "u = t")
    case True
    then show ?thesis using Cons.prems p by auto
  next
    case False
    from Cons.prems p False obtain ps' where ps': "take_first t ps = Some (x, ps')" "xs' = (u, y) # ps'"
      by auto
    from Cons.IH [OF ps'(1)] show ?thesis using p ps'(2) by auto
  qed
qed

lemma enter_fail:
  assumes "idx < 0 \<or> g_section_count g \<le> idx \<or> MAX_NESTING_DEPTH cfg \<le> g_context_stack_top l + 1"
  shows "\<exists>err. narwhalyzer_section_enter cfg now idx (g, l) = (- 1, err, g, l)"
  using assms by (auto simp: narwhalyzer_section_enter_def Let_def)

lemma enter_ok:
  assumes "0 \<le> idx" and "idx < g_section_count g" and "g_context_stack_top l + 1 < MAX_NESTING_DEPTH cfg"
  shows "\<exists>s' pci. narwhalyzer_section_enter cfg now idx (g, l) =
           (g_context_stack_top l + 1, [],
            g\<lparr>g_sections := (g_sections g)[nat idx := s']\<rparr>,
            l\<lparr>g_context_stack_top := g_context_stack_top l + 1,
              g_context_stack := (g_context_stack l)[nat (g_context_stack_top l + 1) :=
                 \<lparr>section_index = idx, start_time_ns = now, parent_context_index = pci\<rparr>]\<rparr>)
         \<and> entry_count s' = entry_count (g_sections g ! nat idx) + 1
         \<and> cumulative_time_ns s' = cumulative_time_ns (g_sections g ! nat idx)
         \<and> min_time_ns s' = min_time_ns (g_sections g ! nat idx)
         \<and> max_time_ns s' = max_time_ns (g_sections g ! nat idx)"
  using assms by (auto simp: narwhalyzer_section_enter_def Let_def)

lemma exit_noop:
  assumes "ctx < 0 \<or> g_context_stack_top l < ctx"
  shows "narwhalyzer_section_exit now ctx (g, l) = (g, l)"
  using assms by (auto simp: narwhalyzer_section_exit_def Let_def)

lemma exit_top:
  assumes "0 \<le> g_context_stack_top l"
  shows "\<exists>s'. narwhalyzer_section_exit now (g_context_stack_top l) (g, l) =
           (g\<lparr>g_sections := (g_sections g)[nat (section_index (g_context_stack l ! nat (g_context_stack_top l))) := s']\<rparr>,
            l\<lparr>g_context_stack_top := g_context_stack_top l - 1\<rparr>)
         \<and> entry_count s' = entry_count (g_sections g ! nat (section_index (g_context_stack l ! nat (g_context_stack_top l))))
         \<and> cumulative_time_ns s' =
             cumulative_time_ns (g_sections g ! nat (section_index (g_context_stack l ! nat (g_context_stack_top l))))
               + (now - start_time_ns (g_context_stack l ! nat (g_context_stack_top l)))
         \<and> min_time_ns s' =
             min (now - start_time_ns (g_context_stack l ! nat (g_context_stack_top l)))
               (min_time_ns (g_sections g ! nat (section_index (g_context_stack l ! nat (g_context_stack_top l)))))
         \<and> max_time_ns s' =
             max (now - start_time_ns (g_context_stack l ! nat (g_context_stack_top l)))
               (max_time_ns (g_sections g ! nat (section_index (g_context_stack l ! nat (g_context_stack_top l)))))"
  using assms by (auto simp: narwhalyzer_section_exit_def Let_def update_min_eq update_max_eq)

lemma world_same [simp]: "w\<lparr>glob := glob w, tls := (tls w)(t := tls w t)\<rparr> = w"
  by simp

lemma balanced_invI:
  assumes "0 < MAX_SECTIONS cfg" and "length (g_sections (glob w)) = nat (MAX_SECTIONS cfg)"
    and "0 \<le> g_section_count (glob w)" and "g_section_count (glob w) \<le> MAX_SECTIONS cfg"
    and "g_section_count (glob w) = sc"
    and "list_all (\<lambda>p. snd (snd (snd p)) \<longrightarrow> 0 \<le> fst (snd p) \<and> fst (snd p) < sc) pend"
    and "\<And>u. length (g_context_stack (tls w u)) = nat (MAX_NESTING_DEPTH cfg)"
    and "\<And>u. thread_rel u (g_context_stack (tls w u)) (g_context_stack_top (tls w u)) held pend"
  shows "balanced_inv cfg sc w held pend"
  using assms unfolding balanced_inv_def by blast

lemma update_other_section:
  assumes "0 \<le> idx" and "0 \<le> s" and "nat s < length xs"
  shows "xs[nat idx := x] ! nat s = (if idx = s then x else xs ! nat s)"
proof (cases "idx = s")
  case True
  then show ?thesis using assms(3) by simp
next
  case False
  then have "nat idx \<noteq> nat s" using assms(1,2) by (simp add: eq_nat_nat_iff)
  then show ?thesis using False by simp
qed

lemma balanced_enter:
  assumes inv: "balanced_inv cfg sc w held pend" and s: "0 \<le> s" "s < sc"
    and m: "m = (0 \<le> idx \<and> idx < sc
                 \<and> int (length (filter (\<lambda>p. fst p = t \<and> snd (snd (snd p))) pend)) < MAX_NESTING_DEPTH cfg)"
  shows "\<exists>r w'. api_step cfg w (Enter t idx now) = (Some r, w')
       \<and> balanced_inv cfg sc w' ((t, r) # held) ((t, (idx, now, m)) # pend)
       \<and> entry_count (section_at w' s) = entry_count (section_at w s) + (if m \<and> idx = s then 1 else 0)
       \<and> cumulative_time_ns (section_at w' s) = cumulative_time_ns (section_at w s)
       \<and> min_time_ns (section_at w' s) = min_time_ns (section_at w s)
       \<and> max_time_ns (section_at w' s) = max_time_ns (section_at w s)"
proof -
  let ?g = "glob w" and ?l = "tls w t"
  let ?tp = "g_context_stack_top ?l"
  have base: "0 < MAX_SECTIONS cfg" "0 \<le> g_section_count ?g" "g_section_count ?g \<le> MAX_SECTIONS cfg"
    using inv by (auto simp: balanced_inv_def)
  have cnt: "g_section_count ?g = sc" and len: "length (g_sections ?g) = nat (MAX_SECTIONS cfg)"
    and cap: "sc \<le> MAX_SECTIONS cfg"
    and range: "list_all (\<lambda>p. snd (snd (snd p)) \<longrightarrow> 0 \<le> fst (snd p) \<and> fst (snd p) < sc) pend"
    and slen: "\<And>u. length (g_context_stack (tls w u)) = nat (MAX_NESTING_DEPTH cfg)"
    and rel: "\<And>u. thread_rel u (g_context_stack (tls w u)) (g_context_stack_top (tls w u)) held pend"
    using inv by (auto simp: balanced_inv_def)
  have depth: "int (length (filter (\<lambda>p. fst p = t \<and> snd (snd (snd p))) pend)) = ?tp + 1"
    using rel [of t] by (rule thread_rel_depth)
  then have tp: "- 1 \<le> ?tp" by linarith
  show ?thesis
  proof (cases m)
    case False
    then have "idx < 0 \<or> g_section_count ?g \<le> idx \<or> MAX_NESTING_DEPTH cfg \<le> ?tp + 1"
      using m depth cnt by auto
    from enter_fail [OF this, of now] obtain err where
      e: "narwhalyzer_section_enter cfg now idx (?g, ?l) = (- 1, err, ?g, ?l)" by blast
    have step: "api_step cfg w (Enter t idx now) = (Some (- 1), w)" using e by simp
    have "thread_rel u (g_context_stack (tls w u)) (g_context_stack_top (tls w u))
            ((t, - 1) # held) ((t, (idx, now, False)) # pend)" for u
      using rel [of u] by simp
    then have "balanced_inv cfg sc w ((t, - 1) # held) ((t, (idx, now, m)) # pend)"
      using base cnt len range slen False by (intro balanced_invI) simp_all
    then show ?thesis using step False by simp
  next
    case True
    then have ok: "0 \<le> idx" "idx < g_section_count ?g" "?tp + 1 < MAX_NESTING_DEPTH cfg"
      using m depth cnt by auto
    from enter_ok [OF ok, of now] obtain s' pci where
      e: "narwhalyzer_section_enter cfg now idx (?g, ?l) =
           (?tp + 1, [], ?g\<lparr>g_sections := (g_sections ?g)[nat idx := s']\<rparr>,
            ?l\<lparr>g_context_stack_top := ?tp + 1,
               g_context_stack := (g_context_stack ?l)[nat (?tp + 1) :=
                 \<lparr>section_index = idx, start_time_ns = now, parent_context_index = pci\<rparr>]\<rparr>)"
      and s': "entry_count s' = entry_count (g_sections ?g ! nat idx) + 1"
        "cumulative_time_ns s' = cumulative_time_ns (g_sections ?g ! nat idx)"
        "min_time_ns s' = min_time_ns (g_sections ?g ! nat idx)"
        "max_time_ns s' = max_time_ns (g_sections ?g ! nat idx)"
      by blast
    define stack' where "stack' = (g_context_stack ?l)[nat (?tp + 1) :=
                 \<lparr>section_index = idx, start_time_ns = now, parent_context_index = pci\<rparr>]"
    define w' where "w' = w\<lparr>glob := ?g\<lparr>g_sections := (g_sections ?g)[nat idx := s']\<rparr>,
        tls := (tls w)(t := ?l\<lparr>g_context_stack_top := ?tp + 1, g_context_stack := stack'\<rparr>)\<rparr>"
    have step: "api_step cfg w (Enter t idx now) = (Some (?tp + 1), w')"
      using e by (simp add: w'_def stack'_def)
    have inlen: "nat (?tp + 1) < length (g_context_stack ?l)"
      using ok(3) tp slen [of t] by simp
    have cell: "stack' ! nat (?tp + 1) = \<lparr>section_index = idx, start_time_ns = now, parent_context_index = pci\<rparr>"
      using inlen by (simp add: stack'_def)
    have below: "stack' ! nat k = g_context_stack ?l ! nat k" if "0 \<le> k" "k \<le> ?tp" for k
      using that by (simp add: stack'_def)
    have rel_t: "thread_rel t stack' ?tp held pend"
      by (rule thread_rel_stack_cong [OF rel [of t]]) (rule below)
    have relt': "thread_rel t stack' (?tp + 1) ((t, ?tp + 1) # held) ((t, (idx, now, True)) # pend)"
      using rel_t cell tp by simp
    have rel': "thread_rel u (g_context_stack (tls w' u)) (g_context_stack_top (tls w' u))
            ((t, ?tp + 1) # held) ((t, (idx, now, True)) # pend)" for u
    proof (cases "u = t")
      case True
      then show ?thesis using relt' by (simp add: w'_def)
    next
      case False
      then show ?thesis using rel [of u] by (simp add: w'_def)
    qed
    have slen': "length (g_context_stack (tls w' u)) = nat (MAX_NESTING_DEPTH cfg)" for u
      using slen [of u] slen [of t] by (simp add: w'_def stack'_def)
    have gw': "g_section_count (glob w') = g_section_count ?g"
      "length (g_sections (glob w')) = length (g_sections ?g)"
      "g_sections (glob w') = (g_sections ?g)[nat idx := s']"
      by (simp_all add: w'_def)
    have binv: "balanced_inv cfg sc w' ((t, ?tp + 1) # held) ((t, (idx, now, m)) # pend)"
    proof (rule balanced_invI)
      show "list_all (\<lambda>p. snd (snd (snd p)) \<longrightarrow> 0 \<le> fst (snd p) \<and> fst (snd p) < sc)
              ((t, (idx, now, m)) # pend)"
        using range ok cnt by simp
      show "thread_rel u (g_context_stack (tls w' u)) (g_context_stack_top (tls w' u))
              ((t, ?tp + 1) # held) ((t, (idx, now, m)) # pend)" for u
        using rel' [of u] True by simp
    qed (use base cnt len gw' slen' in simp_all)
    have ns: "nat s < length (g_sections ?g)" using s cap len by simp
    have "section_at w' s = (if idx = s then s' else section_at w s)"
      unfolding section_at_def gw'(3) by (rule update_other_section [OF ok(1) s(1) ns])
    then have "entry_count (section_at w' s) = entry_count (section_at w s) + (if m \<and> idx = s then 1 else 0)"
        "cumulative_time_ns (section_at w' s) = cumulative_time_ns (section_at w s)"
        "min_time_ns (section_at w' s) = min_time_ns (section_at w s)"
        "max_time_ns (section_at w' s) = max_time_ns (section_at w s)"
      using s' True by (auto simp: section_at_def)
    then show ?thesis using step binv by blast
  qed
qed

lemma balanced_exit:
  assumes inv: "balanced_inv cfg sc w held pend" and s: "0 \<le> s" "s < sc"
    and held: "take_first t held = Some (c, held')"
  shows "\<exists>idx t0 m pend'. take_first t pend = Some ((idx, t0, m), pend')
       \<and> balanced_inv cfg sc (snd (api_step cfg w (Exit t c now))) held' pend'
       \<and> entry_count (section_at (snd (api_step cfg w (Exit t c now))) s) = entry_count (section_at w s)
       \<and> cumulative_time_ns (section_at (snd (api_step cfg w (Exit t c now))) s)
            = cumulative_time_ns (section_at w s) + (if m \<and> idx = s then now - t0 else 0)
       \<and> min_time_ns (section_at (snd (api_step cfg w (Exit t c now))) s)
            = (if m \<and> idx = s then min (now - t0) (min_time_ns (section_at w s)) else min_time_ns (section_at w s))
       \<and> max_time_ns (section_at (snd (api_step cfg w (Exit t c now))) s)
            = (if m \<and> idx = s then max (now - t0) (max_time_ns (section_at w s)) else max_time_ns (section_at w s))"
proof -
  let ?g = "glob w" and ?l = "tls w t"
  let ?tp = "g_context_stack_top ?l"
  let ?w' = "snd (api_step cfg w (Exit t c now))"
  have base: "0 < MAX_SECTIONS cfg" "0 \<le> g_section_count ?g" "g_section_count ?g \<le> MAX_SECTIONS cfg"
    using inv by (auto simp: balanced_inv_def)
  have cnt: "g_section_count ?g = sc" and len: "length (g_sections ?g) = nat (MAX_SECTIONS cfg)"
    and cap: "sc \<le> MAX_SECTIONS cfg"
    and range: "list_all (\<lambda>p. snd (snd (snd p)) \<longrightarrow> 0 \<le> fst (snd p) \<and> fst (snd p) < sc) pend"
    and slen: "\<And>u. length (g_context_stack (tls w u)) = nat (MAX_NESTING_DEPTH cfg)"
    and rel: "\<And>u. thread_rel u (g_context_stack (tls w u)) (g_context_stack_top (tls w u)) held pend"
    using inv by (auto simp: balanced_inv_def)
  from thread_rel_take_same [OF rel [of t] held] obtain idx t0 m pend' where
    pend': "take_first t pend = Some ((idx, t0, m), pend')"
    and r: "if m then c = ?tp \<and> 0 \<le> c \<and> section_index (g_context_stack ?l ! nat c) = idx
                       \<and> start_time_ns (g_context_stack ?l ! nat c) = t0
                       \<and> thread_rel t (g_context_stack ?l) (?tp - 1) held' pend'
            else c = - 1 \<and> thread_rel t (g_context_stack ?l) ?tp held' pend'"
    by blast
  have other: "thread_rel u (g_context_stack (tls w u)) (g_context_stack_top (tls w u)) held' pend'"
    if "u \<noteq> t" for u
    by (rule thread_rel_take_other [OF rel [of u] that held pend'])
  have range': "list_all (\<lambda>p. snd (snd (snd p)) \<longrightarrow> 0 \<le> fst (snd p) \<and> fst (snd p) < sc) pend'"
    using range take_first_set [OF pend'] by (auto simp: list_all_iff)
  have "?thesis" if mm: "\<not> m"
  proof -
    have c: "c = - 1" and relt: "thread_rel t (g_context_stack ?l) ?tp held' pend'"
      using r mm by auto
    have "narwhalyzer_section_exit now c (?g, ?l) = (?g, ?l)"
      by (rule exit_noop) (simp add: c)
    then have w': "?w' = w" by simp
    have "thread_rel u (g_context_stack (tls w u)) (g_context_stack_top (tls w u)) held' pend'" for u
      using relt other [of u] by (cases "u = t") auto
    then have "balanced_inv cfg sc w held' pend'"
      using base cnt len range' slen by (intro balanced_invI) simp_all
    then show ?thesis
      unfolding w'
      by (intro exI [of _ idx] exI [of _ t0] exI [of _ m] exI [of _ pend']) (use pend' mm in simp)
  qed
  moreover have "?thesis" if mm: m
  proof -
    have c: "c = ?tp" "0 \<le> ?tp" and cell: "section_index (g_context_stack ?l ! nat ?tp) = idx"
      "start_time_ns (g_context_stack ?l ! nat ?tp) = t0"
      and relt: "thread_rel t (g_context_stack ?l) (?tp - 1) held' pend'"
      using r mm by auto
    have "(t, (idx, t0, m)) \<in> set pend" using take_first_set [OF pend'] by simp
    then have idx: "0 \<le> idx" "idx < sc" using range mm by (auto simp: list_all_iff)
    from exit_top [OF c(2), of now ?g] obtain s' where
      e: "narwhalyzer_section_exit now ?tp (?g, ?l) =
           (?g\<lparr>g_sections := (g_sections ?g)[nat idx := s']\<rparr>, ?l\<lparr>g_context_stack_top := ?tp - 1\<rparr>)"
      and s': "entry_count s' = entry_count (g_sections ?g ! nat idx)"
        "cumulative_time_ns s' = cumulative_time_ns (g_sections ?g ! nat idx) + (now - t0)"
        "min_time_ns s' = min (now - t0) (min_time_ns (g_sections ?g ! nat idx))"
        "max_time_ns s' = max (now - t0) (max_time_ns (g_sections ?g ! nat idx))"
      unfolding cell by blast
    define w' where "w' = w\<lparr>glob := ?g\<lparr>g_sections := (g_sections ?g)[nat idx := s']\<rparr>,
        tls := (tls w)(t := ?l\<lparr>g_context_stack_top := ?tp - 1\<rparr>)\<rparr>"
    have w': "?w' = w'" using e c(1) by (simp add: w'_def)
    have rel': "thread_rel u (g_context_stack (tls w' u)) (g_context_stack_top (tls w' u)) held' pend'" for u
    proof (cases "u = t")
      case True
      then show ?thesis using relt by (simp add: w'_def)
    next
      case False
      then show ?thesis using other [OF False] by (simp add: w'_def)
    qed
    have slen': "length (g_context_stack (tls w' u)) = nat (MAX_NESTING_DEPTH cfg)" for u
      using slen [of u] slen [of t] by (simp add: w'_def)
    have gw': "g_section_count (glob w') = g_section_count ?g"
      "length (g_sections (glob w')) = length (g_sections ?g)"
      "g_sections (glob w') = (g_sections ?g)[nat idx := s']"
      by (simp_all add: w'_def)
    have binv: "balanced_inv cfg sc w' held' pend'"
      using base cnt len gw' slen' range' rel' by (intro balanced_invI) simp_all
    have ns: "nat s < length (g_sections ?g)" using s cap len by simp
    have "section_at w' s = (if idx = s then s' else section_at w s)"
      unfolding section_at_def gw'(3) by (rule update_other_section [OF idx(1) s(1) ns])
    then have "entry_count (section_at w' s) = entry_count (section_at w s)"
        "cumulative_time_ns (section_at w' s)
            = cumulative_time_ns (section_at w s) + (if m \<and> idx = s then now - t0 else 0)"
        "min_time_ns (section_at w' s)
            = (if m \<and> idx = s then min (now - t0) (min_time_ns (section_at w s)) else min_time_ns (section_at w s))"
        "max_time_ns (section_at w' s)
            = (if m \<and> idx = s then max (now - t0) (max_time_ns (section_at w s)) else max_time_ns (section_at w s))"
      using s' mm by (auto simp: section_at_def)
    then show ?thesis using pend' binv unfolding w' by blast
  qed
  ultimately show ?thesis by blast
qed

lemma in_flight_Cons:
  "in_flight s ((t, (idx, now, m)) # pend) = in_flight s pend + (if m \<and> idx = s then 1 else 0)"
  by (simp add: in_flight_def)

lemma balanced_run_stats:
  assumes "balanced_inv cfg sc w held pend" and "0 \<le> s" and "s < sc"
    and "balanced_run cfg (w, held) evs = Some (w', held')"
  shows "\<exists>pend'. balanced_inv cfg sc w' held' pend'
       \<and> entry_count (section_at w' s) + of_nat (in_flight s pend)
           = entry_count (section_at w s)
             + of_nat (length (spec_measured_durations cfg sc s pend evs) + in_flight s pend')
       \<and> cumulative_time_ns (section_at w' s)
           = cumulative_time_ns (section_at w s) + sum_list (spec_measured_durations cfg sc s pend evs)
       \<and> min_time_ns (section_at w' s)
           = fold min (spec_measured_durations cfg sc s pend evs) (min_time_ns (section_at w s))
       \<and> max_time_ns (section_at w' s)
           = fold max (spec_measured_durations cfg sc s pend evs) (max_time_ns (section_at w s))"
  using assms
proof (induction evs arbitrary: w held pend)
  case Nil
  then show ?case by auto
next
  case (Cons ev evs)
  show ?case
  proof (cases ev)
    case (BEnter t idx now)
    define m where "m = (0 \<le> idx \<and> idx < sc
         \<and> int (length (filter (\<lambda>p. fst p = t \<and> snd (snd (snd p))) pend)) < MAX_NESTING_DEPTH cfg)"
    from balanced_enter [OF Cons.prems(1,2,3) m_def, of now] obtain r w1 where
      step: "api_step cfg w (Enter t idx now) = (Some r, w1)"
      and inv1: "balanced_inv cfg sc w1 ((t, r) # held) ((t, (idx, now, m)) # pend)"
      and st: "entry_count (section_at w1 s) = entry_count (section_at w s) + (if m \<and> idx = s then 1 else 0)"
        "cumulative_time_ns (section_at w1 s) = cumulative_time_ns (section_at w s)"
        "min_time_ns (section_at w1 s) = min_time_ns (section_at w s)"
        "max_time_ns (section_at w1 s) = max_time_ns (section_at w s)"
      by blast
    have run1: "balanced_run cfg (w1, (t, r) # held) evs = Some (w', held')"
      using Cons.prems(4) BEnter step by simp
    have ds: "spec_measured_durations cfg sc s pend (ev # evs)
        = spec_measured_durations cfg sc s ((t, (idx, now, m)) # pend) evs"
      using BEnter by (simp add: m_def Let_def)
    from Cons.IH [OF inv1 Cons.prems(2,3) run1] obtain pend' where
      ih: "balanced_inv cfg sc w' held' pend'"
        "entry_count (section_at w' s) + of_nat (in_flight s ((t, (idx, now, m)) # pend))
           = entry_count (section_at w1 s)
             + of_nat (length (spec_measured_durations cfg sc s ((t, (idx, now, m)) # pend) evs) + in_flight s pend')"
        "cumulative_time_ns (section_at w' s)
           = cumulative_time_ns (section_at w1 s) + sum_list (spec_measured_durations cfg sc s ((t, (idx, now, m)) # pend) evs)"
        "min_time_ns (section_at w' s)
           = fold min (spec_measured_durations cfg sc s ((t, (idx, now, m)) # pend) evs) (min_time_ns (section_at w1 s))"
        "max_time_ns (section_at w' s)
           = fold max (spec_measured_durations cfg sc s ((t, (idx, now, m)) # pend) evs) (max_time_ns (section_at w1 s))"
      by blast
    have "entry_count (section_at w' s) + of_nat (in_flight s pend)
           = entry_count (section_at w s)
             + of_nat (length (spec_measured_durations cfg sc s pend (ev # evs)) + in_flight s pend')"
    proof (cases "m \<and> idx = s")
      case True
      then have "in_flight s ((t, (idx, now, m)) # pend) = Suc (in_flight s pend)"
        "entry_count (section_at w1 s) = entry_count (section_at w s) + 1"
        using st(1) by (simp_all add: in_flight_Cons)
      then show ?thesis using ih(2) by (simp add: ds)
    next
      case False
      then have "in_flight s ((t, (idx, now, m)) # pend) = in_flight s pend"
        "entry_count (section_at w1 s) = entry_count (section_at w s)"
        using st(1) by (simp_all add: in_flight_Cons)
      then show ?thesis using ih(2) by (simp add: ds)
    qed
    then show ?thesis using ih(1,3,4,5) unfolding ds st(2,3,4) by blast
  next
    case (BExit t now)
    from Cons.prems(4) BExit obtain c held1 where
      tk: "take_first t held = Some (c, held1)"
      and run1: "balanced_run cfg (snd (api_step cfg w (Exit t c now)), held1) evs = Some (w', held')"
      by (auto split: option.splits)
    define w1 where "w1 = snd (api_step cfg w (Exit t c now))"
    note run1 = run1 [folded w1_def]
    from balanced_exit [OF Cons.prems(1,2,3) tk, of now, folded w1_def] obtain idx t0 m pend1 where
      pend1: "take_first t pend = Some ((idx, t0, m), pend1)"
      and inv1: "balanced_inv cfg sc w1 held1 pend1"
      and st: "entry_count (section_at w1 s) = entry_count (section_at w s)"
        "cumulative_time_ns (section_at w1 s)
            = cumulative_time_ns (section_at w s) + (if m \<and> idx = s then now - t0 else 0)"
        "min_time_ns (section_at w1 s)
            = (if m \<and> idx = s then min (now - t0) (min_time_ns (section_at w s)) else min_time_ns (section_at w s))"
        "max_time_ns (section_at w1 s)
            = (if m \<and> idx = s then max (now - t0) (max_time_ns (section_at w s)) else max_time_ns (section_at w s))"
      by blast
    have ds: "spec_measured_durations cfg sc s pend (ev # evs)
        = (if m \<and> idx = s then [now - t0] else []) @ spec_measured_durations cfg sc s pend1 evs"
      using BExit pend1 by simp
    have fl: "in_flight s pend = in_flight s pend1 + (if m \<and> idx = s then 1 else 0)"
      by (rule in_flight_take [OF pend1])
    from Cons.IH [OF inv1 Cons.prems(2,3) run1] obtain pend' where
      ih: "balanced_inv cfg sc w' held' pend'"
        "entry_count (section_at w' s) + of_nat (in_flight s pend1)
           = entry_count (section_at w1 s)
             + of_nat (length (spec_measured_durations cfg sc s pend1 evs) + in_flight s pend')"
        "cumulative_time_ns (section_at w' s)
           = cumulative_time_ns (section_at w1 s) + sum_list (spec_measured_durations cfg sc s pend1 evs)"
        "min_time_ns (section_at w' s)
           = fold min (spec_measured_durations cfg sc s pend1 evs) (min_time_ns (section_at w1 s))"
        "max_time_ns (section_at w' s)
           = fold max (spec_measured_durations cfg sc s pend1 evs) (max_time_ns (section_at w1 s))"
      by blast
    define b where "b \<longleftrightarrow> m \<and> idx = s"
    note ds = ds [folded b_def] and fl = fl [folded b_def] and st = st [folded b_def]
    show ?thesis
    proof (cases b)
      case True
      then have ds': "spec_measured_durations cfg sc s pend (ev # evs)
          = (now - t0) # spec_measured_durations cfg sc s pend1 evs"
        and fl': "in_flight s pend = Suc (in_flight s pend1)"
        and st': "entry_count (section_at w1 s) = entry_count (section_at w s)"
          "cumulative_time_ns (section_at w1 s) = cumulative_time_ns (section_at w s) + (now - t0)"
          "min_time_ns (section_at w1 s) = min (now - t0) (min_time_ns (section_at w s))"
          "max_time_ns (section_at w1 s) = max (now - t0) (max_time_ns (section_at w s))"
        using ds fl st by simp_all
      have "entry_count (section_at w' s) + of_nat (in_flight s pend)
           = entry_count (section_at w s)
             + of_nat (length (spec_measured_durations cfg sc s pend (ev # evs)) + in_flight s pend')"
        using ih(2) by (simp add: ds' fl' st'(1))
      moreover have "cumulative_time_ns (section_at w' s)
           = cumulative_time_ns (section_at w s) + sum_list (spec_measured_durations cfg sc s pend (ev # evs))"
        by (simp add: ih(3) ds' st'(2) add.assoc)
      moreover have "min_time_ns (section_at w' s)
           = fold min (spec_measured_durations cfg sc s pend (ev # evs)) (min_time_ns (section_at w s))"
        by (simp add: ih(4) ds' st'(3))
      moreover have "max_time_ns (section_at w' s)
           = fold max (spec_measured_durations cfg sc s pend (ev # evs)) (max_time_ns (section_at w s))"
        by (simp add: ih(5) ds' st'(4))
      ultimately show ?thesis using ih(1) by blast
    next
      case False
      then have ds': "spec_measured_durations cfg sc s pend (ev # evs)
          = spec_measured_durations cfg sc s pend1 evs"
        and fl': "in_flight s pend = in_flight s pend1"
        and st': "entry_count (section_at w1 s) = entry_count (section_at w s)"
          "cumulative_time_ns (section_at w1 s) = cumulative_time_ns (section_at w s)"
          "min_time_ns (section_at w1 s) = min_time_ns (section_at w s)"
          "max_time_ns (section_at w1 s) = max_time_ns (section_at w s)"
        using ds fl st by simp_all
      show ?thesis using ih unfolding ds' fl' st' by blast
    qed
  qed
qed

lemma fold_min_Min:
  fixes m :: "'a :: linorder"
  shows "fold min ds m = Min (insert m (set ds))"
proof -
  have "Min (set (m # ds)) = fold min ds m" by (rule Min.set_eq_fold)
  then show ?thesis by simp
qed

lemma fold_max_Max:
  fixes m :: "'a :: linorder"
  shows "fold max ds m = Max (insert m (set ds))"
proof -
  have "Max (set (m # ds)) = fold max ds m" by (rule Max.set_eq_fold)
  then show ?thesis by simp
qed

lemma fold_min_top:
  fixes ds :: "uint64_t list"
  assumes "ds \<noteq> []"
  shows "fold min ds UINT64_MAX = Min (set ds)"
proof -
  have "UINT64_MAX = (- 1 :: uint64_t)" by (simp add: UINT64_MAX_def)
  moreover have "Min (set ds) \<le> (- 1 :: uint64_t)" by (rule word_n1_ge)
  ultimately have le: "Min (set ds) \<le> UINT64_MAX" by simp
  have "fold min ds UINT64_MAX = Min (insert UINT64_MAX (set ds))" by (rule fold_min_Min)
  also have "\<dots> = min UINT64_MAX (Min (set ds))" by (rule Min_insert) (use assms in simp_all)
  also have "\<dots> = Min (set ds)" using le by (rule min_absorb2)
  finally show ?thesis .
qed

lemma fold_max_bot:
  fixes ds :: "uint64_t list"
  assumes "ds \<noteq> []"
  shows "fold max ds 0 = Max (set ds)"
proof -
  have le: "(0 :: uint64_t) \<le> Max (set ds)" by simp
  have "fold max ds 0 = Max (insert 0 (set ds))" by (rule fold_max_Max)
  also have "\<dots> = max 0 (Max (set ds))" by (rule Max_insert) (use assms in simp_all)
  also have "\<dots> = Max (set ds)" using le by (rule max_absorb2)
  finally show ?thesis .
qed

lemma unat_sum_list:
  fixes ds :: "uint64_t list"
  assumes "sum_list (map unat ds) < 2 ^ 64"
  shows "unat (sum_list ds) = sum_list (map unat ds)"
  using assms
proof (induction ds)
  case Nil
  then show ?case by simp
next
  case (Cons d ds)
  then have ih: "unat (sum_list ds) = sum_list (map unat ds)" by simp
  have "unat d + unat (sum_list ds) < 2 ^ LENGTH(64)" using Cons.prems ih by simp
  then have "unat (d + sum_list ds) = unat d + unat (sum_list ds)" by (simp only: unat_add_lem)
  then show ?case using ih by simp
qed

text \<open>
  C1 (amended). Let every thread be idle and section \<open>s\<close> be as registration leaves it,
  and let a sequence of enter and exit calls run in which each exit of a thread passes
  the id returned by that thread's latest open enter, and which leaves no enter open.
  Then the entry count of \<open>s\<close> is the number \<open>N\<close> of its completed measured activations,
  those whose enter succeeded; its cumulative time is the sum of their durations, and its
  minimum and maximum are their minimum and maximum (the initial \<^verbatim>\<open>UINT64_MAX\<close> and 0
  when \<open>N = 0\<close>). An activation whose enter returned -1, because the thread was already
  \<^verbatim>\<open>MAX_NESTING_DEPTH\<close> deep, is neither counted nor timed. The counters are 64-bit: the
  equalities hold in 64-bit arithmetic, and as equalities of natural numbers when \<open>N\<close>
  and the sum are below \<open>2 ^ 64\<close>. Calls of different threads interleave as whole calls.
\<close>

theorem balanced_statistics:
  assumes "wf_globals cfg (glob w)"
    and "\<forall>t. length (g_context_stack (tls w t)) = nat (MAX_NESTING_DEPTH cfg)
             \<and> g_context_stack_top (tls w t) = - 1"
    and "0 \<le> s" and "s < g_section_count (glob w)"
    and "entry_count (section_at w s) = 0" and "cumulative_time_ns (section_at w s) = 0"
    and "min_time_ns (section_at w s) = UINT64_MAX" and "max_time_ns (section_at w s) = 0"
    and "balanced_run cfg (w, []) evs = Some (w', [])"
    and "ds = spec_measured_durations cfg (g_section_count (glob w)) s [] evs"
  shows "entry_count (section_at w' s) = of_nat (length ds)
       \<and> cumulative_time_ns (section_at w' s) = sum_list ds
       \<and> min_time_ns (section_at w' s) = (if ds = [] then UINT64_MAX else Min (set ds))
       \<and> max_time_ns (section_at w' s) = (if ds = [] then 0 else Max (set ds))
       \<and> (length ds < 2 ^ 64 \<longrightarrow> unat (entry_count (section_at w' s)) = length ds)
       \<and> (sum_list (map unat ds) < 2 ^ 64 \<longrightarrow>
            unat (cumulative_time_ns (section_at w' s)) = sum_list (map unat ds))"
proof -
  let ?sc = "g_section_count (glob w)"
  have inv: "balanced_inv cfg ?sc w [] []"
    using assms(1,2) by (intro balanced_invI) (simp_all add: wf_globals_def)
  from balanced_run_stats [OF inv assms(3,4,9)] obtain pend' where
    inv': "balanced_inv cfg ?sc w' [] pend'"
    and st: "entry_count (section_at w' s) + of_nat (in_flight s [])
           = entry_count (section_at w s) + of_nat (length ds + in_flight s pend')"
      "cumulative_time_ns (section_at w' s) = cumulative_time_ns (section_at w s) + sum_list ds"
      "min_time_ns (section_at w' s) = fold min ds (min_time_ns (section_at w s))"
      "max_time_ns (section_at w' s) = fold max ds (max_time_ns (section_at w s))"
    unfolding assms(10) by blast
  have "thread_rel 0 (g_context_stack (tls w' 0)) (g_context_stack_top (tls w' 0)) [] pend'"
    using inv' by (simp add: balanced_inv_def)
  then have "pend' = []" by (cases pend') simp_all
  then have ec: "entry_count (section_at w' s) = of_nat (length ds)"
    using st(1) assms(5) by (simp add: in_flight_def)
  have cu: "cumulative_time_ns (section_at w' s) = sum_list ds"
    using st(2) assms(6) by simp
  have mi: "min_time_ns (section_at w' s) = (if ds = [] then UINT64_MAX else Min (set ds))"
    using st(3) assms(7) by (simp add: fold_min_top)
  have ma: "max_time_ns (section_at w' s) = (if ds = [] then 0 else Max (set ds))"
    using st(4) assms(8) by (simp add: fold_max_bot)
  have "unat (entry_count (section_at w' s)) = length ds" if "length ds < 2 ^ 64"
    using that by (simp add: ec unat_of_nat)
  moreover have "unat (cumulative_time_ns (section_at w' s)) = sum_list (map unat ds)"
    if "sum_list (map unat ds) < 2 ^ 64"
    unfolding cu using that by (rule unat_sum_list)
  ultimately show ?thesis using ec cu mi ma by blast
qed

theorem balanced_statistics_witness:
  "wf_globals cfg2 (glob w_idle) \<and> (0 :: int) < g_section_count (glob w_idle)
   \<and> entry_count (section_at w_idle 0) = 0 \<and> cumulative_time_ns (section_at w_idle 0) = 0
   \<and> min_time_ns (section_at w_idle 0) = UINT64_MAX \<and> max_time_ns (section_at w_idle 0) = 0
   \<and> map_option snd (balanced_run cfg2 (w_idle, []) calls_balanced) = Some []
   \<and> spec_measured_durations cfg2 (g_section_count (glob w_idle)) 0 [] calls_balanced = [800, 1500, 100]
   \<and> entry_count (section_at (fst (the (balanced_run cfg2 (w_idle, []) calls_balanced))) 0) = 3
   \<and> cumulative_time_ns (section_at (fst (the (balanced_run cfg2 (w_idle, []) calls_balanced))) 0) = 2400
   \<and> min_time_ns (section_at (fst (the (balanced_run cfg2 (w_idle, []) calls_balanced))) 0) = 100
   \<and> max_time_ns (section_at (fst (the (balanced_run cfg2 (w_idle, []) calls_balanced))) 0) = 1500"
proof -
  let ?w' = "fst (the (balanced_run cfg2 (w_idle, []) calls_balanced))"
  have a: "wf_globals cfg2 (glob w_idle)"
    by (simp add: w_idle_def wf_globals_def g_two_def cfg2_def)
  have b: "\<forall>t. length (g_context_stack (tls w_idle t)) = nat (MAX_NESTING_DEPTH cfg2)
             \<and> g_context_stack_top (tls w_idle t) = - 1"
    by (simp add: w_idle_def initial_thread_locals_def cfg2_def)
  have c: "(0 :: int) \<le> 0" "(0 :: int) < g_section_count (glob w_idle)"
    by (simp_all add: w_idle_def g_two_def)
  have d: "entry_count (section_at w_idle 0) = 0" "cumulative_time_ns (section_at w_idle 0) = 0"
    "min_time_ns (section_at w_idle 0) = UINT64_MAX" "max_time_ns (section_at w_idle 0) = 0"
    by (simp_all add: section_at_def w_idle_def g_two_def fresh_section_def)
  have e: "map_option snd (balanced_run cfg2 (w_idle, []) calls_balanced) = Some []"
    by code_simp
  then have r: "balanced_run cfg2 (w_idle, []) calls_balanced = Some (?w', [])"
    by (cases "balanced_run cfg2 (w_idle, []) calls_balanced") auto
  have f: "spec_measured_durations cfg2 (g_section_count (glob w_idle)) 0 [] calls_balanced = [800, 1500, 100]"
    by code_simp
  from balanced_statistics [OF a b c d r f [symmetric]]
  show ?thesis using a c(2) d e f by simp
qed

text \<open>
  C1 as stated fails: with a nesting depth of 2, the calls \<open>calls_deep\<close> are balanced and
  complete three activations of section 0, of 100, 300 and 500 ns. The entry count is 2,
  not 3; the cumulative time is 800 ns, not 900; the minimum is 300 ns, not 100.
\<close>

theorem unmeasured_activation_not_counted:
  "wf_globals cfg2 (glob w_idle)
   \<and> entry_count (section_at w_idle 0) = 0 \<and> cumulative_time_ns (section_at w_idle 0) = 0
   \<and> min_time_ns (section_at w_idle 0) = UINT64_MAX \<and> max_time_ns (section_at w_idle 0) = 0
   \<and> map_option snd (balanced_run cfg2 (w_idle, []) calls_deep) = Some []
   \<and> spec_activation_durations 0 [] calls_deep = [100, 300, 500]
   \<and> spec_measured_durations cfg2 (g_section_count (glob w_idle)) 0 [] calls_deep = [300, 500]
   \<and> entry_count (section_at (fst (the (balanced_run cfg2 (w_idle, []) calls_deep))) 0) = 2
   \<and> cumulative_time_ns (section_at (fst (the (balanced_run cfg2 (w_idle, []) calls_deep))) 0) = 800
   \<and> min_time_ns (section_at (fst (the (balanced_run cfg2 (w_idle, []) calls_deep))) 0) = 300
   \<and> max_time_ns (section_at (fst (the (balanced_run cfg2 (w_idle, []) calls_deep))) 0) = 500"
proof -
  have a: "wf_globals cfg2 (glob w_idle)"
    by (simp add: w_idle_def wf_globals_def g_two_def cfg2_def)
  have d: "entry_count (section_at w_idle 0) = 0" "cumulative_time_ns (section_at w_idle 0) = 0"
    "min_time_ns (section_at w_idle 0) = UINT64_MAX" "max_time_ns (section_at w_idle 0) = 0"
    by (simp_all add: section_at_def w_idle_def g_two_def fresh_section_def)
  have e: "map_option snd (balanced_run cfg2 (w_idle, []) calls_deep) = Some []"
    by code_simp
  have f: "spec_activation_durations 0 [] calls_deep = [100, 300, 500]"
    "spec_measured_durations cfg2 (g_section_count (glob w_idle)) 0 [] calls_deep = [300, 500]"
    by code_simp+
  have g: "entry_count (section_at (fst (the (balanced_run cfg2 (w_idle, []) calls_deep))) 0) = 2"
    "cumulative_time_ns (section_at (fst (the (balanced_run cfg2 (w_idle, []) calls_deep))) 0) = 800"
    "min_time_ns (section_at (fst (the (balanced_run cfg2 (w_idle, []) calls_deep))) 0) = 300"
    "max_time_ns (section_at (fst (the (balanced_run cfg2 (w_idle, []) calls_deep))) 0) = 500"
    by code_simp+
  show ?thesis using a d e f g by simp
qed

end
